theory Spec2Isabelle
  imports Main "HOL-Library.Word"
begin

unbundle bit_operations_syntax

section \<open>Data model\<close>

text \<open>
  The ring buffer of \<^verbatim>\<open>fifo_buffer.h\<close> and the message framing of
  \<^verbatim>\<open>uart_message_fifo.c\<close>. \<^verbatim>\<open>uint8_t\<close> is an 8-bit word and
  \<^verbatim>\<open>uint16_t\<close> a 16-bit word. The code is written for an AVR target, where
  \<^verbatim>\<open>int\<close> has 16 bits: an expression over \<^verbatim>\<open>uint16_t\<close> operands is computed
  in \<^verbatim>\<open>unsigned int\<close>, that is modulo \<open>2 ^ 16\<close>, which is the arithmetic of
  \<^typ>\<open>16 word\<close>.
\<close>

type_synonym u8 = "8 word"
type_synonym u16 = "16 word"

text \<open>
  The struct \<^verbatim>\<open>FIFO_Buffer\<close>. The field \<^verbatim>\<open>buffer\<close> points to the storage;
  the model holds the storage itself, a list as long as the array the pointer refers
  to (the empty list stands for \<^verbatim>\<open>NULL\<close>: every access to it is out of bounds).
  The field \<^verbatim>\<open>size\<close> is named \<open>size_fifo\<close> here.
\<close>

record FIFO_Buffer =
  buffer :: "u8 list"
  size_fifo :: u16
  head :: u16
  tail :: u16
  count :: u16
  high_watermark :: u16
  low_watermark :: u16
  overwrite_enabled :: bool

text \<open>
  Two operations of C have undefined behaviour on some operands: indexing an array
  outside its bounds and \<^verbatim>\<open>%\<close> with a zero divisor. The model makes each a
  fault, so a function of the model returns \<open>Inl\<close> of a fault or \<open>Inr\<close> of its
  result.
\<close>

datatype fault = DivisionByZero | OutOfBounds

definition array_read :: "u8 list \<Rightarrow> nat \<Rightarrow> fault + u8" where
  "array_read a i = (if i < length a then Inr (a ! i) else Inl OutOfBounds)"

definition array_write :: "u8 list \<Rightarrow> nat \<Rightarrow> u8 \<Rightarrow> fault + u8 list" where
  "array_write a i v = (if i < length a then Inr (a[i := v]) else Inl OutOfBounds)"

definition umod :: "u16 \<Rightarrow> u16 \<Rightarrow> fault + u16" where
  "umod a b = (if b = 0 then Inl DivisionByZero else Inr (a mod b))"

definition MESSAGE_START_BYTE :: u8 where
  "MESSAGE_START_BYTE = 0xAA"

definition BUFFER_SIZE :: u16 where
  "BUFFER_SIZE = 128"

section \<open>The ring buffer (fifo\_buffer.c)\<close>

definition FIFO_Init :: "u8 list \<Rightarrow> u16 \<Rightarrow> FIFO_Buffer" where
  "FIFO_Init buf sz =
     \<lparr>buffer = buf, size_fifo = sz, head = 0, tail = 0, count = 0,
      high_watermark = sz - (sz div 4), low_watermark = sz div 4,
      overwrite_enabled = False\<rparr>"

text \<open>
  \<^verbatim>\<open>FIFO_Init_Dynamic\<close> calls \<^verbatim>\<open>malloc\<close>; its outcome is the parameter
  \<open>mem\<close>: \<open>None\<close> when the allocation fails, otherwise the fresh storage with
  whatever bytes it holds.
\<close>

definition FIFO_Init_Dynamic ::
  "FIFO_Buffer \<Rightarrow> u16 \<Rightarrow> u8 list option \<Rightarrow> bool \<times> FIFO_Buffer" where
  "FIFO_Init_Dynamic fifo sz mem =
     (case mem of
        None \<Rightarrow> (False, fifo\<lparr>buffer := []\<rparr>)
      | Some buf \<Rightarrow>
          (True, fifo\<lparr>buffer := buf, size_fifo := sz, head := 0, tail := 0, count := 0,
                      high_watermark := sz - 1, low_watermark := 1,
                      overwrite_enabled := False\<rparr>))"

definition FIFO_Reset :: "FIFO_Buffer \<Rightarrow> FIFO_Buffer" where
  "FIFO_Reset fifo = fifo\<lparr>head := 0, tail := 0, count := 0\<rparr>"

text \<open>
  The last three lines of \<^verbatim>\<open>FIFO_Push\<close>, which are also the last two of
  \<^verbatim>\<open>FIFO_PushOverwrite\<close>: store the byte at \<open>head\<close> and advance \<open>head\<close>.
\<close>

definition store_at_head :: "FIFO_Buffer \<Rightarrow> u8 \<Rightarrow> fault + FIFO_Buffer" where
  "store_at_head fifo data =
     (case array_write (buffer fifo) (unat (head fifo)) data of
        Inl e \<Rightarrow> Inl e
      | Inr buf \<Rightarrow>
          (case umod (head fifo + 1) (size_fifo fifo) of
             Inl e \<Rightarrow> Inl e
           | Inr h \<Rightarrow> Inr (fifo\<lparr>buffer := buf, head := h\<rparr>)))"

definition FIFO_Push :: "FIFO_Buffer \<Rightarrow> u8 \<Rightarrow> fault + (bool \<times> FIFO_Buffer)" where
  "FIFO_Push fifo data =
     (if count fifo = size_fifo fifo then
        if overwrite_enabled fifo then
          (case umod (tail fifo + 1) (size_fifo fifo) of
             Inl e \<Rightarrow> Inl e
           | Inr t \<Rightarrow>
               (case store_at_head (fifo\<lparr>tail := t\<rparr>) data of
                  Inl e \<Rightarrow> Inl e
                | Inr fifo' \<Rightarrow> Inr (True, fifo')))
        else Inr (False, fifo)
      else
        (case store_at_head (fifo\<lparr>count := count fifo + 1\<rparr>) data of
           Inl e \<Rightarrow> Inl e
         | Inr fifo' \<Rightarrow> Inr (True, fifo')))"

definition FIFO_PushOverwrite :: "FIFO_Buffer \<Rightarrow> u8 \<Rightarrow> fault + FIFO_Buffer" where
  "FIFO_PushOverwrite fifo data =
     (if count fifo = size_fifo fifo then
        (case umod (tail fifo + 1) (size_fifo fifo) of
           Inl e \<Rightarrow> Inl e
         | Inr t \<Rightarrow> store_at_head (fifo\<lparr>tail := t\<rparr>) data)
      else store_at_head (fifo\<lparr>count := count fifo + 1\<rparr>) data)"

text \<open>
  \<^verbatim>\<open>FIFO_Pop\<close> and \<^verbatim>\<open>FIFO_Peek\<close> return a \<^verbatim>\<open>bool\<close> and write the byte
  through the pointer \<^verbatim>\<open>data\<close> only when they return \<^verbatim>\<open>true\<close>. In the
  model \<open>Some d\<close> is the result \<^verbatim>\<open>true\<close> with \<open>d\<close> written to \<^verbatim>\<open>*data\<close>,
  and \<open>None\<close> is the result \<^verbatim>\<open>false\<close>, with \<^verbatim>\<open>*data\<close> untouched.
\<close>

definition FIFO_Pop :: "FIFO_Buffer \<Rightarrow> fault + (u8 option \<times> FIFO_Buffer)" where
  "FIFO_Pop fifo =
     (if count fifo = 0 then Inr (None, fifo)
      else
        (case array_read (buffer fifo) (unat (tail fifo)) of
           Inl e \<Rightarrow> Inl e
         | Inr d \<Rightarrow>
             (case umod (tail fifo + 1) (size_fifo fifo) of
                Inl e \<Rightarrow> Inl e
              | Inr t \<Rightarrow> Inr (Some d, fifo\<lparr>tail := t, count := count fifo - 1\<rparr>))))"

definition FIFO_Peek :: "FIFO_Buffer \<Rightarrow> u16 \<Rightarrow> fault + u8 option" where
  "FIFO_Peek fifo index =
     (if index \<ge> count fifo then Inr None
      else
        (case umod (tail fifo + index) (size_fifo fifo) of
           Inl e \<Rightarrow> Inl e
         | Inr position \<Rightarrow>
             (case array_read (buffer fifo) (unat position) of
                Inl e \<Rightarrow> Inl e
              | Inr d \<Rightarrow> Inr (Some d))))"

definition FIFO_IsEmpty :: "FIFO_Buffer \<Rightarrow> bool" where
  "FIFO_IsEmpty fifo = (count fifo = 0)"

definition FIFO_IsFull :: "FIFO_Buffer \<Rightarrow> bool" where
  "FIFO_IsFull fifo = (count fifo = size_fifo fifo)"

definition FIFO_SetOverwrite :: "FIFO_Buffer \<Rightarrow> bool \<Rightarrow> FIFO_Buffer" where
  "FIFO_SetOverwrite fifo enable = fifo\<lparr>overwrite_enabled := enable\<rparr>"

text \<open>
  \<^verbatim>\<open>FIFO_CheckWatermarks\<close> is declared \<^verbatim>\<open>void\<close>, and each of its two
  branches holds a comment only. The model keeps the two comparisons and returns
  what the C function leaves behind: the ring, and the unit value for \<^verbatim>\<open>void\<close>.
\<close>

definition FIFO_CheckWatermarks :: "FIFO_Buffer \<Rightarrow> unit \<times> FIFO_Buffer" where
  "FIFO_CheckWatermarks fifo =
     (if count fifo \<ge> high_watermark fifo then ((), fifo)
      else if count fifo \<le> low_watermark fifo then ((), fifo)
      else ((), fifo))"

section \<open>The message framing (uart\_message\_fifo.c)\<close>

text \<open>
  The loop of \<^verbatim>\<open>Add_UART_Message\<close>, from the index \<open>i\<close> on. The message is
  the array the pointer \<^verbatim>\<open>message\<close> refers to.
\<close>

function Add_UART_Message_loop ::
  "FIFO_Buffer \<Rightarrow> u8 list \<Rightarrow> u8 \<Rightarrow> u8 \<Rightarrow> fault + (bool \<times> FIFO_Buffer)" where
  "Add_UART_Message_loop fifo message len i =
     (if i < len then
        (case array_read message (unat i) of
           Inl e \<Rightarrow> Inl e
         | Inr b \<Rightarrow>
             (case FIFO_Push fifo b of
                Inl e \<Rightarrow> Inl e
              | Inr (ok, fifo') \<Rightarrow>
                  if \<not> ok then Inr (False, fifo')
                  else Add_UART_Message_loop fifo' message len (i + 1)))
      else Inr (True, fifo))"
  by pat_completeness auto
termination
proof (relation "measure (\<lambda>(fifo, message, len, i). unat len - unat i)")
  show "wf (measure (\<lambda>(fifo, message, len, i). unat len - unat i))"
    by simp
next
  fix fifo :: FIFO_Buffer and message :: "u8 list" and len i :: u8
  assume "i < len"
  then have "unat (i + 1) = Suc (unat i)"
    by unat_arith
  with \<open>i < len\<close>
  show "((fifo', message, len, i + 1), (fifo, message, len, i))
          \<in> measure (\<lambda>(fifo, message, len, i). unat len - unat i)" for fifo'
    by (simp add: word_less_nat_alt)
qed

declare Add_UART_Message_loop.simps [simp del]

text \<open>
  The comparison \<^verbatim>\<open>BUFFER_SIZE - fifo->count < length\<close> is made in
  \<^verbatim>\<open>unsigned int\<close>: the constant and \<^verbatim>\<open>length\<close> are converted to 16 bits
  and the subtraction wraps around. With a wider \<^verbatim>\<open>int\<close> the comparison
  gives another result only when \<open>count\<close> exceeds \<^verbatim>\<open>BUFFER_SIZE\<close>.
\<close>

definition Add_UART_Message ::
  "FIFO_Buffer \<Rightarrow> u8 list \<Rightarrow> u8 \<Rightarrow> fault + (bool \<times> FIFO_Buffer)" where
  "Add_UART_Message fifo message len =
     (if len < 3 \<or> BUFFER_SIZE - count fifo < ucast len then Inr (False, fifo)
      else Add_UART_Message_loop fifo message len 0)"

text \<open>
  The loop of \<^verbatim>\<open>Get_UART_Message\<close>, from the index \<open>i\<close> on. The first
  component of the result is \<open>False\<close> when the loop was left by
  \<^verbatim>\<open>return false\<close> (a pop failed), and \<open>True\<close> when it ran to its end. The
  array \<open>message\<close> is the caller's output buffer, which is taken to be apart from
  the storage of the ring.
\<close>

function Get_UART_Message_loop ::
  "FIFO_Buffer \<Rightarrow> u8 list \<Rightarrow> u8 \<Rightarrow> u8 \<Rightarrow> u8 \<Rightarrow>
     fault + (bool \<times> FIFO_Buffer \<times> u8 list \<times> u8)" where
  "Get_UART_Message_loop fifo message message_length checksum i =
     (if i < message_length then
        (case FIFO_Pop fifo of
           Inl e \<Rightarrow> Inl e
         | Inr (None, fifo') \<Rightarrow> Inr (False, fifo', message, checksum)
         | Inr (Some d, fifo') \<Rightarrow>
             (case array_write message (unat i) d of
                Inl e \<Rightarrow> Inl e
              | Inr message' \<Rightarrow>
                  Get_UART_Message_loop fifo' message' message_length
                    (checksum XOR d) (i + 1)))
      else Inr (True, fifo, message, checksum))"
  by pat_completeness auto
termination
proof (relation "measure (\<lambda>(fifo, message, message_length, checksum, i).
                            unat message_length - unat i)")
  show "wf (measure (\<lambda>(fifo, message, message_length, checksum, i).
                       unat message_length - unat i))"
    by simp
next
  fix fifo :: FIFO_Buffer and message :: "u8 list" and message_length checksum i :: u8
  assume "i < message_length"
  then have "unat (i + 1) = Suc (unat i)"
    by unat_arith
  with \<open>i < message_length\<close>
  show "((fifo', message', message_length, checksum XOR d, i + 1),
         (fifo, message, message_length, checksum, i))
          \<in> measure (\<lambda>(fifo, message, message_length, checksum, i).
                        unat message_length - unat i)" for fifo' message' d
    by (simp add: word_less_nat_alt)
qed

declare Get_UART_Message_loop.simps [simp del]

text \<open>
  \<^verbatim>\<open>Get_UART_Message\<close> writes through two pointers: the output buffer
  \<^verbatim>\<open>message\<close> and the byte \<^verbatim>\<open>*length\<close>. The model takes the values both
  hold before the call (\<open>message\<close> and \<open>len\<close>) and returns, after the
  \<^verbatim>\<open>bool\<close> and the ring, the values they hold after it.
\<close>

definition Get_UART_Message ::
  "FIFO_Buffer \<Rightarrow> u8 list \<Rightarrow> u8 \<Rightarrow> fault + (bool \<times> FIFO_Buffer \<times> u8 list \<times> u8)" where
  "Get_UART_Message fifo message len =
     (if FIFO_IsEmpty fifo then Inr (False, fifo, message, len)
      else
        (case FIFO_Pop fifo of
           Inl e \<Rightarrow> Inl e
         | Inr (None, fifo1) \<Rightarrow> Inr (False, fifo1, message, len)
         | Inr (Some start_byte, fifo1) \<Rightarrow>
             if start_byte \<noteq> MESSAGE_START_BYTE then Inr (False, fifo1, message, len)
             else
               (case FIFO_Pop fifo1 of
                  Inl e \<Rightarrow> Inl e
                | Inr (None, fifo2) \<Rightarrow> Inr (False, fifo2, message, len)
                | Inr (Some message_length, fifo2) \<Rightarrow>
                    if message_length < 3 then Inr (False, fifo2, message, len)
                    else
                      (case array_write message 0 MESSAGE_START_BYTE of
                         Inl e \<Rightarrow> Inl e
                       | Inr m0 \<Rightarrow>
                           (case array_write m0 1 message_length of
                              Inl e \<Rightarrow> Inl e
                            | Inr m1 \<Rightarrow>
                                (case Get_UART_Message_loop fifo2 m1 message_length 0 2 of
                                   Inl e \<Rightarrow> Inl e
                                 | Inr (complete, fifo3, m2, checksum) \<Rightarrow>
                                     if \<not> complete then
                                       Inr (False, fifo3, m2, message_length)
                                     else if checksum \<noteq> 0 then
                                       Inr (False, fifo3, m2, message_length)
                                     else Inr (True, fifo3, m2, message_length)))))))"

section \<open>Invariant, logical contents and drivers\<close>

text \<open>
  The invariant of the ring: the occupancy is within the capacity, both indices are
  within the capacity, and the head is \<open>count\<close> slots after the tail, modulo the
  capacity (in unbounded arithmetic).
\<close>

definition fifo_inv :: "FIFO_Buffer \<Rightarrow> bool" where
  "fifo_inv f =
     (count f \<le> size_fifo f \<and> head f < size_fifo f \<and> tail f < size_fifo f \<and>
      unat (head f) = (unat (tail f) + unat (count f)) mod unat (size_fifo f))"

text \<open>
  What \<^verbatim>\<open>FIFO_Init\<close> asks of its caller: the storage has at least \<open>size\<close> bytes.
\<close>

definition storage_ok :: "FIFO_Buffer \<Rightarrow> bool" where
  "storage_ok f = (unat (size_fifo f) \<le> length (buffer f))"

definition ring_ok :: "FIFO_Buffer \<Rightarrow> bool" where
  "ring_ok f = (fifo_inv f \<and> storage_ok f)"

text \<open>
  The bytes the ring holds, oldest first: the byte at logical position \<open>i\<close> is at the
  physical index \<open>(tail + i) mod size\<close>.
\<close>

definition contents :: "FIFO_Buffer \<Rightarrow> u8 list" where
  "contents f =
     map (\<lambda>i. buffer f ! ((unat (tail f) + i) mod unat (size_fifo f)))
       [0..<unat (count f)]"

text \<open>
  Callers of the ring: \<open>push_all\<close> calls \<^verbatim>\<open>FIFO_Push\<close> on each byte of a list in
  turn and collects the results, \<open>pop_n\<close> calls \<^verbatim>\<open>FIFO_Pop\<close> a number of times
  and collects the results.
\<close>

fun push_all :: "FIFO_Buffer \<Rightarrow> u8 list \<Rightarrow> fault + (bool list \<times> FIFO_Buffer)" where
  "push_all f [] = Inr ([], f)"
| "push_all f (b # bs) =
     (case FIFO_Push f b of
        Inl e \<Rightarrow> Inl e
      | Inr (ok, f') \<Rightarrow>
          (case push_all f' bs of
             Inl e \<Rightarrow> Inl e
           | Inr (oks, f'') \<Rightarrow> Inr (ok # oks, f'')))"

fun pop_n :: "FIFO_Buffer \<Rightarrow> nat \<Rightarrow> fault + (u8 option list \<times> FIFO_Buffer)" where
  "pop_n f 0 = Inr ([], f)"
| "pop_n f (Suc n) =
     (case FIFO_Pop f of
        Inl e \<Rightarrow> Inl e
      | Inr (r, f') \<Rightarrow>
          (case pop_n f' n of
             Inl e \<Rightarrow> Inl e
           | Inr (rs, f'') \<Rightarrow> Inr (r # rs, f'')))"

text \<open>A caller that runs any sequence of operations on one ring.\<close>

datatype fifo_op =
  Push u8 | PushOverwrite u8 | Pop | Peek u16 | Reset | SetOverwrite bool

fun apply_op :: "FIFO_Buffer \<Rightarrow> fifo_op \<Rightarrow> fault + FIFO_Buffer" where
  "apply_op f (Push b) =
     (case FIFO_Push f b of Inl e \<Rightarrow> Inl e | Inr (ok, f') \<Rightarrow> Inr f')"
| "apply_op f (PushOverwrite b) = FIFO_PushOverwrite f b"
| "apply_op f Pop =
     (case FIFO_Pop f of Inl e \<Rightarrow> Inl e | Inr (d, f') \<Rightarrow> Inr f')"
| "apply_op f (Peek i) =
     (case FIFO_Peek f i of Inl e \<Rightarrow> Inl e | Inr d \<Rightarrow> Inr f)"
| "apply_op f Reset = Inr (FIFO_Reset f)"
| "apply_op f (SetOverwrite enable) = Inr (FIFO_SetOverwrite f enable)"

fun apply_ops :: "FIFO_Buffer \<Rightarrow> fifo_op list \<Rightarrow> fault + FIFO_Buffer" where
  "apply_ops f [] = Inr f"
| "apply_ops f (x # xs) =
     (case apply_op f x of Inl e \<Rightarrow> Inl e | Inr f' \<Rightarrow> apply_ops f' xs)"

text \<open>The checksum of the framing: the XOR of a list of bytes.\<close>

primrec xor_list :: "u8 list \<Rightarrow> u8" where
  "xor_list [] = 0"
| "xor_list (b # bs) = b XOR xor_list bs"

text \<open>
  The classification the specification gives for the watermarks, in its own words:
  high when \<open>count \<ge> high_watermark\<close>, otherwise low when
  \<open>count \<le> low_watermark\<close>, otherwise none.
\<close>

datatype watermark_status = HighCrossed | LowCrossed | NoneCrossed

definition spec_watermark_status :: "FIFO_Buffer \<Rightarrow> watermark_status" where
  "spec_watermark_status f =
     (if count f \<ge> high_watermark f then HighCrossed
      else if count f \<le> low_watermark f then LowCrossed
      else NoneCrossed)"

text \<open>
  The free capacity the specification asks \<^verbatim>\<open>Add_UART_Message\<close> to check: the
  live size of the ring minus its count.
\<close>

definition spec_free_capacity :: "FIFO_Buffer \<Rightarrow> nat" where
  "spec_free_capacity f = unat (size_fifo f) - unat (count f)"

section \<open>Arithmetic of the indices\<close>

lemma unat_succ_mod: "(t::u16) < s \<Longrightarrow> unat ((t + 1) mod s) = Suc (unat t) mod unat s"
proof -
  assume "t < s"
  then have "unat (t + 1) = Suc (unat t)" by unat_arith
  then show ?thesis by (simp add: unat_mod_distrib)
qed

lemma unat_succ_count: "(c::u16) \<le> s \<Longrightarrow> c \<noteq> s \<Longrightarrow> unat (c + 1) = Suc (unat c)"
  by unat_arith

lemma unat_pred_count: "(c::u16) \<noteq> 0 \<Longrightarrow> unat (c - 1) = unat c - 1"
  by unat_arith

lemma succ_count_le: "(c::u16) \<le> s \<Longrightarrow> c \<noteq> s \<Longrightarrow> c + 1 \<le> s"
  by unat_arith

lemma pred_count_le: "(c::u16) \<le> s \<Longrightarrow> c \<noteq> 0 \<Longrightarrow> c - 1 \<le> s"
  by unat_arith

lemma word_mod_lt: "(s::u16) \<noteq> 0 \<Longrightarrow> x mod s < s"
  by (simp add: word_mod_less_divisor word_neq_0_conv)

lemma mod_add_inj_le:
  assumes "i \<le> j" "j < n" "(t + i) mod n = (t + j) mod (n::nat)"
  shows "i = j"
proof -
  have "t + i \<le> t + j" and "(t + j) mod n = (t + i) mod n"
    using assms by simp_all
  then have "n dvd (t + j) - (t + i)"
    by (simp only: mod_eq_dvd_iff_nat)
  then have "n dvd j - i" by simp
  moreover have "j - i < n" using assms by simp
  ultimately have "j - i = 0" by (meson dvd_imp_le less_le_not_le not_gr_zero)
  with assms show ?thesis by simp
qed

lemma mod_add_inj: "i < n \<Longrightarrow> j < n \<Longrightarrow> (t + i) mod n = (t + j) mod (n::nat) \<Longrightarrow> i = j"
  by (metis mod_add_inj_le nat_le_linear)

lemma unat_succ_u8: "(i::u8) < n \<Longrightarrow> unat (i + 1) = Suc (unat i)"
  by unat_arith

lemma succ_le_u8: "(i::u8) < n \<Longrightarrow> i + 1 \<le> n"
  by (rule inc_le)

section \<open>One push, one pop\<close>

text \<open>
  What one call does to a ring that satisfies the invariant and has its storage: the
  state it returns, that the invariant holds again, and the bytes the ring then holds.
\<close>

lemma push_result:
  assumes "ring_ok f" "count f \<noteq> size_fifo f"
  shows "FIFO_Push f b =
           Inr (True, f\<lparr>count := count f + 1, buffer := (buffer f)[unat (head f) := b],
                          head := (head f + 1) mod size_fifo f\<rparr>)"
  using assms
  by (auto simp: FIFO_Push_def store_at_head_def array_write_def umod_def ring_ok_def
        fifo_inv_def storage_ok_def word_less_nat_alt)

lemma push_overwrite_result:
  assumes "ring_ok f" "count f = size_fifo f" "overwrite_enabled f"
  shows "FIFO_Push f b =
           Inr (True, f\<lparr>tail := (tail f + 1) mod size_fifo f,
                          buffer := (buffer f)[unat (head f) := b],
                          head := (head f + 1) mod size_fifo f\<rparr>)"
  using assms
  by (auto simp: FIFO_Push_def store_at_head_def array_write_def umod_def ring_ok_def
        fifo_inv_def storage_ok_def word_less_nat_alt)

lemma pop_result:
  assumes "ring_ok f" "count f \<noteq> 0"
  shows "FIFO_Pop f =
           Inr (Some (buffer f ! unat (tail f)),
                f\<lparr>tail := (tail f + 1) mod size_fifo f, count := count f - 1\<rparr>)"
  using assms
  by (auto simp: FIFO_Pop_def array_read_def umod_def ring_ok_def
        fifo_inv_def storage_ok_def word_less_nat_alt)

lemma push_ring_ok:
  assumes "ring_ok f" "count f \<noteq> size_fifo f"
  shows "ring_ok (f\<lparr>count := count f + 1, buffer := (buffer f)[unat (head f) := b],
                     head := (head f + 1) mod size_fifo f\<rparr>)"
proof -
  from assms have le: "count f \<le> size_fifo f" and h: "head f < size_fifo f"
    and t: "tail f < size_fifo f"
    and eq: "unat (head f) = (unat (tail f) + unat (count f)) mod unat (size_fifo f)"
    and st: "unat (size_fifo f) \<le> length (buffer f)"
    by (simp_all add: ring_ok_def fifo_inv_def storage_ok_def)
  from h have nz: "size_fifo f \<noteq> 0" by auto
  have "unat ((head f + 1) mod size_fifo f) =
          (unat (tail f) + unat (count f + 1)) mod unat (size_fifo f)"
    using h le assms(2) by (simp add: unat_succ_mod unat_succ_count eq mod_Suc_eq)
  then show ?thesis
    using le assms(2) t st nz
    by (simp add: ring_ok_def fifo_inv_def storage_ok_def succ_count_le word_mod_lt)
qed

lemma push_contents:
  assumes "ring_ok f" "count f \<noteq> size_fifo f"
  shows "contents (f\<lparr>count := count f + 1, buffer := (buffer f)[unat (head f) := b],
                     head := (head f + 1) mod size_fifo f\<rparr>) = contents f @ [b]"
proof -
  from assms have le: "count f \<le> size_fifo f" and h: "head f < size_fifo f"
    and eq: "unat (head f) = (unat (tail f) + unat (count f)) mod unat (size_fifo f)"
    and st: "unat (size_fifo f) \<le> length (buffer f)"
    by (simp_all add: ring_ok_def fifo_inv_def storage_ok_def)
  have c: "unat (count f) < unat (size_fifo f)"
    using le assms(2) by unat_arith
  have hl: "unat (head f) < length (buffer f)"
    using h st by (simp add: word_less_nat_alt)
  have old: "(buffer f)[unat (head f) := b] ! ((unat (tail f) + i) mod unat (size_fifo f)) =
             buffer f ! ((unat (tail f) + i) mod unat (size_fifo f))"
    if "i < unat (count f)" for i
  proof -
    have "(unat (tail f) + i) mod unat (size_fifo f) \<noteq> unat (head f)"
      using that c mod_add_inj [of i "unat (size_fifo f)" "unat (count f)" "unat (tail f)"]
      by (auto simp: eq)
    then show ?thesis by simp
  qed
  show ?thesis
    using le assms(2) hl old
    by (simp add: contents_def unat_succ_count eq [symmetric])
qed

lemma full_head_eq_tail:
  assumes "ring_ok f" "count f = size_fifo f"
  shows "head f = tail f"
proof -
  from assms have "unat (head f) = unat (tail f)"
    by (simp add: ring_ok_def fifo_inv_def word_less_nat_alt)
  then show ?thesis by (simp add: word_unat_eq_iff)
qed

lemma push_overwrite_ring_ok:
  assumes "ring_ok f" "count f = size_fifo f"
  shows "ring_ok (f\<lparr>tail := (tail f + 1) mod size_fifo f,
                     buffer := (buffer f)[unat (head f) := b],
                     head := (head f + 1) mod size_fifo f\<rparr>)"
proof -
  from assms have t: "tail f < size_fifo f"
    and st: "unat (size_fifo f) \<le> length (buffer f)"
    by (simp_all add: ring_ok_def fifo_inv_def storage_ok_def)
  from t have nz: "size_fifo f \<noteq> 0" by auto
  have ht: "head f = tail f" using assms by (rule full_head_eq_tail)
  show ?thesis
    using t st nz assms(2)
    by (simp add: ring_ok_def fifo_inv_def storage_ok_def word_mod_lt ht unat_succ_mod)
qed

lemma push_overwrite_contents:
  assumes "ring_ok f" "count f = size_fifo f"
  shows "contents (f\<lparr>tail := (tail f + 1) mod size_fifo f,
                     buffer := (buffer f)[unat (head f) := b],
                     head := (head f + 1) mod size_fifo f\<rparr>) = tl (contents f) @ [b]"
proof (rule nth_equalityI)
  from assms have t: "tail f < size_fifo f"
    and st: "unat (size_fifo f) \<le> length (buffer f)"
    by (simp_all add: ring_ok_def fifo_inv_def storage_ok_def)
  have ht: "head f = tail f" using assms by (rule full_head_eq_tail)
  let ?n = "unat (size_fifo f)" and ?t = "unat (tail f)"
  let ?f' = "f\<lparr>tail := (tail f + 1) mod size_fifo f,
                 buffer := (buffer f)[unat (head f) := b],
                 head := (head f + 1) mod size_fifo f\<rparr>"
  have tn: "?t < ?n" using t by (simp add: word_less_nat_alt)
  show len: "length (contents ?f') = length (tl (contents f) @ [b])"
    using tn assms(2) by (simp add: contents_def)
  fix i assume "i < length (contents ?f')"
  then have i: "i < ?n" using assms(2) by (simp add: contents_def)
  have idx: "(Suc ?t mod ?n + i) mod ?n = (?t + Suc i) mod ?n"
    by (simp add: mod_add_left_eq)
  show "contents ?f' ! i = (tl (contents f) @ [b]) ! i"
  proof (cases "Suc i < ?n")
    case True
    then have "(?t + Suc i) mod ?n \<noteq> ?t"
      using mod_add_inj [of "Suc i" ?n 0 ?t] tn by auto
    moreover from True have "i < ?n - Suc 0" by simp
    ultimately show ?thesis
      using True i t assms(2)
      by (simp add: contents_def ht unat_succ_mod idx nth_append nth_tl)
  next
    case False
    with i have "Suc i = ?n" by simp
    then have "(?t + Suc i) mod ?n = ?t" using tn by simp
    moreover from \<open>Suc i = ?n\<close> have "\<not> i < ?n - Suc 0" and "i - (?n - Suc 0) = 0"
      by simp_all
    ultimately show ?thesis
      using i t tn st assms(2)
      by (simp add: contents_def ht unat_succ_mod idx nth_append)
  qed
qed

lemma pop_ring_ok:
  assumes "ring_ok f" "count f \<noteq> 0"
  shows "ring_ok (f\<lparr>tail := (tail f + 1) mod size_fifo f, count := count f - 1\<rparr>)"
proof -
  from assms have le: "count f \<le> size_fifo f" and h: "head f < size_fifo f"
    and t: "tail f < size_fifo f"
    and eq: "unat (head f) = (unat (tail f) + unat (count f)) mod unat (size_fifo f)"
    and st: "unat (size_fifo f) \<le> length (buffer f)"
    by (simp_all add: ring_ok_def fifo_inv_def storage_ok_def)
  from h have nz: "size_fifo f \<noteq> 0" by auto
  have c: "0 < unat (count f)" using assms(2) by (simp add: unat_gt_0)
  have "(Suc (unat (tail f)) mod unat (size_fifo f) + (unat (count f) - 1)) mod unat (size_fifo f)
          = (Suc (unat (tail f)) + (unat (count f) - 1)) mod unat (size_fifo f)"
    by (simp add: mod_add_left_eq)
  also have "\<dots> = (unat (tail f) + unat (count f)) mod unat (size_fifo f)"
    using c by simp
  finally show ?thesis
    using le h t st nz assms(2)
    by (simp add: ring_ok_def fifo_inv_def storage_ok_def word_mod_lt unat_succ_mod
          unat_pred_count pred_count_le eq)
qed

lemma pop_contents:
  assumes "ring_ok f" "count f \<noteq> 0"
  shows "contents (f\<lparr>tail := (tail f + 1) mod size_fifo f, count := count f - 1\<rparr>)
           = tl (contents f)"
    and "buffer f ! unat (tail f) = hd (contents f)"
proof -
  from assms have t: "tail f < size_fifo f"
    by (simp_all add: ring_ok_def fifo_inv_def)
  let ?n = "unat (size_fifo f)" and ?t = "unat (tail f)"
  have tn: "?t < ?n" using t by (simp add: word_less_nat_alt)
  have c: "0 < unat (count f)" using assms(2) by (simp add: unat_gt_0)
  have idx: "(Suc ?t mod ?n + i) mod ?n = (?t + Suc i) mod ?n" for i
    by (simp add: mod_add_left_eq)
  show "contents (f\<lparr>tail := (tail f + 1) mod size_fifo f, count := count f - 1\<rparr>)
           = tl (contents f)"
    using t assms(2) c
    by (auto intro!: nth_equalityI
          simp: contents_def unat_succ_mod unat_pred_count idx nth_tl)
  show "buffer f ! unat (tail f) = hd (contents f)"
    using c tn by (simp add: contents_def hd_map upt_conv_Cons)
qed

lemma length_contents: "length (contents f) = unat (count f)"
  by (simp add: contents_def)

lemma contents_Nil_iff: "contents f = [] \<longleftrightarrow> count f = 0"
  by (simp add: contents_def unat_eq_0)

lemma FIFO_Push_not_full:
  assumes "ring_ok f" "count f \<noteq> size_fifo f"
  shows "\<exists>f'. FIFO_Push f b = Inr (True, f') \<and> ring_ok f' \<and>
               contents f' = contents f @ [b] \<and> size_fifo f' = size_fifo f \<and>
               overwrite_enabled f' = overwrite_enabled f"
  using push_result [OF assms, of b] push_ring_ok [OF assms, of b] push_contents [OF assms, of b]
  by simp

lemma FIFO_Push_full_overwrite:
  assumes "ring_ok f" "count f = size_fifo f" "overwrite_enabled f"
  shows "\<exists>f'. FIFO_Push f b = Inr (True, f') \<and> ring_ok f' \<and>
               contents f' = tl (contents f) @ [b] \<and> size_fifo f' = size_fifo f \<and>
               overwrite_enabled f' = overwrite_enabled f"
  using push_overwrite_result [OF assms, of b] push_overwrite_ring_ok [OF assms(1,2), of b]
    push_overwrite_contents [OF assms(1,2), of b]
  by simp

lemma FIFO_Pop_nonempty:
  assumes "ring_ok f" "count f \<noteq> 0"
  shows "\<exists>f'. FIFO_Pop f = Inr (Some (hd (contents f)), f') \<and> ring_ok f' \<and>
               contents f' = tl (contents f) \<and> size_fifo f' = size_fifo f \<and>
               overwrite_enabled f' = overwrite_enabled f"
  using pop_result [OF assms] pop_ring_ok [OF assms] pop_contents [OF assms]
  by simp

lemma not_full_if_room:
  assumes "length (contents f) < unat (size_fifo f)"
  shows "count f \<noteq> size_fifo f"
  using assms by (auto simp: length_contents)

lemma FIFO_Init_ring_ok:
  assumes "sz \<noteq> 0" "unat sz \<le> length buf"
  shows "ring_ok (FIFO_Init buf sz)" "contents (FIFO_Init buf sz) = []"
    "size_fifo (FIFO_Init buf sz) = sz"
  using assms
  by (simp_all add: ring_ok_def fifo_inv_def storage_ok_def FIFO_Init_def contents_def
        word_neq_0_conv)

lemma FIFO_Init_Dynamic_ring_ok:
  assumes "sz \<noteq> 0" "unat sz \<le> length buf"
  shows "fst (FIFO_Init_Dynamic g sz (Some buf))"
    "ring_ok (snd (FIFO_Init_Dynamic g sz (Some buf)))"
    "contents (snd (FIFO_Init_Dynamic g sz (Some buf))) = []"
  using assms
  by (simp_all add: ring_ok_def fifo_inv_def storage_ok_def FIFO_Init_Dynamic_def contents_def
        word_neq_0_conv)

lemmas eval_defs =
  FIFO_Init_def FIFO_Push_def store_at_head_def array_write_def array_read_def umod_def
  FIFO_Pop_def FIFO_IsEmpty_def MESSAGE_START_BYTE_def

section \<open>First in, first out\<close>

lemma push_all_fits:
  assumes "ring_ok f" "length (contents f) + length bs \<le> unat (size_fifo f)"
  shows "\<exists>f'. push_all f bs = Inr (replicate (length bs) True, f') \<and> ring_ok f' \<and>
               contents f' = contents f @ bs \<and> size_fifo f' = size_fifo f \<and>
               overwrite_enabled f' = overwrite_enabled f"
  using assms
proof (induction bs arbitrary: f)
  case Nil
  then show ?case by simp
next
  case (Cons b bs)
  from Cons.prems have "count f \<noteq> size_fifo f"
    by (intro not_full_if_room) simp
  with Cons.prems(1) obtain f1 where f1: "FIFO_Push f b = Inr (True, f1)" "ring_ok f1"
    "contents f1 = contents f @ [b]" "size_fifo f1 = size_fifo f"
    "overwrite_enabled f1 = overwrite_enabled f"
    using FIFO_Push_not_full by blast
  from Cons.prems f1 have "length (contents f1) + length bs \<le> unat (size_fifo f1)"
    by simp
  with Cons.IH [OF f1(2)] obtain f2 where
    "push_all f1 bs = Inr (replicate (length bs) True, f2)" "ring_ok f2"
    "contents f2 = contents f1 @ bs" "size_fifo f2 = size_fifo f1"
    "overwrite_enabled f2 = overwrite_enabled f1"
    by blast
  with f1 show ?case by simp
qed

lemma pop_n_available:
  assumes "ring_ok f" "n \<le> length (contents f)"
  shows "\<exists>f'. pop_n f n = Inr (map Some (take n (contents f)), f') \<and> ring_ok f' \<and>
               contents f' = drop n (contents f) \<and> size_fifo f' = size_fifo f"
  using assms
proof (induction n arbitrary: f)
  case 0
  then show ?case by simp
next
  case (Suc n)
  from Suc.prems have ne: "contents f \<noteq> []" by auto
  then have "count f \<noteq> 0" by (simp add: contents_Nil_iff)
  with Suc.prems(1) obtain f1 where f1: "FIFO_Pop f = Inr (Some (hd (contents f)), f1)"
    "ring_ok f1" "contents f1 = tl (contents f)" "size_fifo f1 = size_fifo f"
    using FIFO_Pop_nonempty by blast
  from Suc.prems f1 have "n \<le> length (contents f1)" by simp
  with Suc.IH [OF f1(2)] obtain f2 where
    "pop_n f1 n = Inr (map Some (take n (contents f1)), f2)" "ring_ok f2"
    "contents f2 = drop n (contents f1)" "size_fifo f2 = size_fifo f1"
    by blast
  with f1 ne show ?case
    by (cases "contents f") (simp_all add: drop_Suc)
qed

text \<open>
  Claim C3. On an empty ring that satisfies the invariant (as every ring is after
  \<^verbatim>\<open>FIFO_Init\<close> or \<^verbatim>\<open>FIFO_Init_Dynamic\<close> with a size of at least 1 and
  storage of that size), pushing \<open>n \<le> size\<close> bytes with \<^verbatim>\<open>FIFO_Push\<close>
  succeeds at every push, and \<open>n\<close> calls of \<^verbatim>\<open>FIFO_Pop\<close> then succeed and
  return exactly the pushed bytes in their order.
\<close>

theorem fifo_order:
  assumes "ring_ok f" "count f = 0" "length bs \<le> unat (size_fifo f)"
  shows "\<exists>f1 f2. push_all f bs = Inr (replicate (length bs) True, f1) \<and>
                  pop_n f1 (length bs) = Inr (map Some bs, f2)"
proof -
  from assms(2) have "contents f = []" by (simp add: contents_Nil_iff)
  with assms obtain f1 where f1: "push_all f bs = Inr (replicate (length bs) True, f1)"
    "ring_ok f1" "contents f1 = bs"
    using push_all_fits [of f bs] by auto
  then obtain f2 where "pop_n f1 (length bs) = Inr (map Some bs, f2)"
    using pop_n_available [of f1 "length bs"] by auto
  with f1 show ?thesis by blast
qed

text \<open>Claim C3 on a ring of capacity 4 set up by \<^verbatim>\<open>FIFO_Init\<close>.\<close>

theorem fifo_order_witness:
  "ring_ok (FIFO_Init [0, 0, 0, 0] 4) \<and> count (FIFO_Init [0, 0, 0, 0] 4) = 0 \<and>
   length [1, 2, 3 :: u8] \<le> unat (size_fifo (FIFO_Init [0, 0, 0, 0] 4)) \<and>
   (\<exists>f1 f2. push_all (FIFO_Init [0, 0, 0, 0] 4) [1, 2, 3] = Inr (replicate (length [1, 2, 3 :: u8]) True, f1) \<and>
             pop_n f1 (length [1, 2, 3 :: u8]) = Inr (map Some [1, 2, 3], f2))"
proof -
  have h1: "ring_ok (FIFO_Init [0, 0, 0, 0] 4)"
    by (simp add: ring_ok_def fifo_inv_def storage_ok_def FIFO_Init_def)
  have h2: "count (FIFO_Init [0, 0, 0, 0] 4) = 0"
    by (simp add: FIFO_Init_def)
  have h3: "length [1, 2, 3 :: u8] \<le> unat (size_fifo (FIFO_Init [0, 0, 0, 0] 4))"
    by (simp add: FIFO_Init_def)
  from fifo_order [OF h1 h2 h3] h1 h2 h3 show ?thesis by blast
qed

section \<open>Pushing onto a full ring\<close>

text \<open>
  Claim C4. On a full ring with overwrite enabled \<^verbatim>\<open>FIFO_Push\<close> returns success,
  the count stays at the size, the tail advances by one modulo the size, and the byte
  is stored at the old head. The ring then holds its former bytes without the oldest,
  followed by the new byte. The oldest byte is gone for good: the state after the push
  is the same whatever byte the slot at the old tail held, so no later operation can
  depend on it.
\<close>

theorem push_full_overwrite:
  assumes "ring_ok f" and "count f = size_fifo f" and "overwrite_enabled f"
  shows "\<exists>f'. FIFO_Push f b = Inr (True, f') \<and>
               count f' = size_fifo f' \<and> size_fifo f' = size_fifo f \<and>
               tail f' = (tail f + 1) mod size_fifo f \<and>
               unat (tail f') = (unat (tail f) + 1) mod unat (size_fifo f) \<and>
               buffer f' = (buffer f)[unat (head f) := b] \<and>
               buffer f' ! unat (head f) = b \<and>
               contents f' = tl (contents f) @ [b] \<and>
               (\<forall>x. FIFO_Push (f\<lparr>buffer := (buffer f)[unat (tail f) := x]\<rparr>) b = Inr (True, f'))"
proof -
  let ?f' = "f\<lparr>tail := (tail f + 1) mod size_fifo f,
                buffer := (buffer f)[unat (head f) := b],
                head := (head f + 1) mod size_fifo f\<rparr>"
  from assms have t: "tail f < size_fifo f"
    and st: "unat (size_fifo f) \<le> length (buffer f)"
    by (simp_all add: ring_ok_def fifo_inv_def storage_ok_def)
  have ht: "head f = tail f" using assms(1,2) by (rule full_head_eq_tail)
  have hl: "unat (head f) < length (buffer f)"
    using t st by (simp add: ht word_less_nat_alt)
  have r: "FIFO_Push f b = Inr (True, ?f')"
    using assms by (rule push_overwrite_result)
  have indep: "FIFO_Push (f\<lparr>buffer := (buffer f)[unat (tail f) := x]\<rparr>) b = Inr (True, ?f')" for x
  proof -
    let ?g = "f\<lparr>buffer := (buffer f)[unat (tail f) := x]\<rparr>"
    have "ring_ok ?g" using assms(1) by (simp add: ring_ok_def fifo_inv_def storage_ok_def)
    moreover have "count ?g = size_fifo ?g" "overwrite_enabled ?g" using assms by simp_all
    ultimately have "FIFO_Push ?g b =
        Inr (True, ?g\<lparr>tail := (tail ?g + 1) mod size_fifo ?g,
                      buffer := (buffer ?g)[unat (head ?g) := b],
                      head := (head ?g + 1) mod size_fifo ?g\<rparr>)"
      by (rule push_overwrite_result)
    then show ?thesis by (simp add: ht)
  qed
  have "unat (tail ?f') = (unat (tail f) + 1) mod unat (size_fifo f)"
    using t by (simp add: unat_succ_mod)
  moreover have "contents ?f' = tl (contents f) @ [b]"
    using assms(1,2) by (rule push_overwrite_contents)
  moreover have "buffer ?f' ! unat (head f) = b" using hl by simp
  moreover have "count ?f' = size_fifo ?f'" using assms(2) by simp
  ultimately show ?thesis using r indep by (intro exI [of _ ?f']) simp
qed

text \<open>Claim C4 on a full ring of capacity 4 whose oldest byte is 3.\<close>

theorem push_full_overwrite_witness:
  "ring_ok \<lparr>buffer = [1, 2, 3, 4], size_fifo = 4, head = 2, tail = 2, count = 4,
      high_watermark = 3, low_watermark = 1, overwrite_enabled = True\<rparr> \<and>
   (\<exists>f'. FIFO_Push \<lparr>buffer = [1, 2, 3, 4], size_fifo = 4, head = 2, tail = 2, count = 4,
      high_watermark = 3, low_watermark = 1, overwrite_enabled = True\<rparr> 9 = Inr (True, f') \<and>
      count f' = 4 \<and> tail f' = 3 \<and> buffer f' = [1, 2, 9, 4] \<and> contents f' = [4, 1, 2, 9] \<and>
      (\<forall>x. FIFO_Push \<lparr>buffer = [1, 2, x, 4], size_fifo = 4, head = 2, tail = 2, count = 4,
      high_watermark = 3, low_watermark = 1, overwrite_enabled = True\<rparr> 9 = Inr (True, f')))"
proof -
  let ?f = "\<lparr>buffer = [1, 2, 3, 4], size_fifo = 4, head = 2, tail = 2, count = 4,
      high_watermark = 3, low_watermark = 1, overwrite_enabled = True\<rparr>"
  have h1: "ring_ok ?f"
    by (simp add: ring_ok_def fifo_inv_def storage_ok_def word_less_nat_alt)
  have h2: "count ?f = size_fifo ?f" and h3: "overwrite_enabled ?f" by simp_all
  have c: "contents ?f = [3, 4, 1, 2]" by (simp add: contents_def upt_conv_Cons)
  from push_full_overwrite [OF h1 h2 h3, of 9] obtain f' where
    "FIFO_Push ?f 9 = Inr (True, f')" "count f' = size_fifo f'" "size_fifo f' = size_fifo ?f"
    "tail f' = (tail ?f + 1) mod size_fifo ?f" "buffer f' = (buffer ?f)[unat (head ?f) := 9]"
    "contents f' = tl (contents ?f) @ [9]"
    "\<forall>x. FIFO_Push (?f\<lparr>buffer := (buffer ?f)[unat (tail ?f) := x]\<rparr>) 9 = Inr (True, f')"
    by blast
  then show ?thesis
    using h1 by (intro conjI exI [of _ f']) (simp_all add: c)
qed

text \<open>
  Claim C5. On a full ring with overwrite disabled \<^verbatim>\<open>FIFO_Push\<close> returns failure
  and the ring is unchanged: count, head, tail and every stored byte.
\<close>

theorem push_full_no_overwrite:
  assumes "count f = size_fifo f" and "\<not> overwrite_enabled f"
  shows "FIFO_Push f b = Inr (False, f)"
  using assms by (simp add: FIFO_Push_def)

text \<open>Claim C5 on a full ring of capacity 4.\<close>

theorem push_full_no_overwrite_witness:
  "FIFO_Push \<lparr>buffer = [1, 2, 3, 4], size_fifo = 4, head = 2, tail = 2, count = 4,
      high_watermark = 3, low_watermark = 1, overwrite_enabled = False\<rparr> 9 =
     Inr (False, \<lparr>buffer = [1, 2, 3, 4], size_fifo = 4, head = 2, tail = 2, count = 4,
      high_watermark = 3, low_watermark = 1, overwrite_enabled = False\<rparr>)"
  using push_full_no_overwrite
    [of "\<lparr>buffer = [1, 2, 3, 4], size_fifo = 4, head = 2, tail = 2, count = 4,
      high_watermark = 3, low_watermark = 1, overwrite_enabled = False\<rparr>" 9]
  by simp

section \<open>Watermarks\<close>

text \<open>
  Claim C8 as stated has the function return which threshold is crossed. It cannot:
  on a ring above its high watermark and on a ring below its low watermark the function
  returns the same (the one value of \<^verbatim>\<open>void\<close>).
\<close>

theorem check_watermarks_reports_nothing:
  "spec_watermark_status
     \<lparr>buffer = [0, 0, 0, 0, 0, 0, 0, 0], size_fifo = 8, head = 7, tail = 0, count = 7,
      high_watermark = 6, low_watermark = 2, overwrite_enabled = False\<rparr> = HighCrossed \<and>
   spec_watermark_status
     \<lparr>buffer = [0, 0, 0, 0, 0, 0, 0, 0], size_fifo = 8, head = 1, tail = 0, count = 1,
      high_watermark = 6, low_watermark = 2, overwrite_enabled = False\<rparr> = LowCrossed \<and>
   fst (FIFO_CheckWatermarks
     \<lparr>buffer = [0, 0, 0, 0, 0, 0, 0, 0], size_fifo = 8, head = 7, tail = 0, count = 7,
      high_watermark = 6, low_watermark = 2, overwrite_enabled = False\<rparr>) =
   fst (FIFO_CheckWatermarks
     \<lparr>buffer = [0, 0, 0, 0, 0, 0, 0, 0], size_fifo = 8, head = 1, tail = 0, count = 1,
      high_watermark = 6, low_watermark = 2, overwrite_enabled = False\<rparr>)"
  by (simp add: spec_watermark_status_def word_le_nat_alt)

text \<open>
  Claim C8, as amended. \<^verbatim>\<open>FIFO_CheckWatermarks\<close> returns nothing and leaves the
  ring as it was, for every ring: its comparisons select a branch, and each branch is
  empty.
\<close>

theorem check_watermarks_no_effect:
  "FIFO_CheckWatermarks f = ((), f)"
  by (simp add: FIFO_CheckWatermarks_def)

section \<open>The invariant under every sequence of operations\<close>

lemma FIFO_Push_preserves:
  assumes "ring_ok f"
  shows "\<exists>ok f'. FIFO_Push f b = Inr (ok, f') \<and> ring_ok f'"
proof (cases "count f = size_fifo f")
  case False
  with assms show ?thesis using FIFO_Push_not_full by blast
next
  case True
  show ?thesis
  proof (cases "overwrite_enabled f")
    case True
    with assms \<open>count f = size_fifo f\<close> show ?thesis
      using FIFO_Push_full_overwrite by blast
  next
    case False
    with \<open>count f = size_fifo f\<close> have "FIFO_Push f b = Inr (False, f)"
      by (simp add: FIFO_Push_def)
    with assms show ?thesis by blast
  qed
qed

lemma FIFO_PushOverwrite_preserves:
  assumes "ring_ok f"
  shows "\<exists>f'. FIFO_PushOverwrite f b = Inr f' \<and> ring_ok f'"
proof (cases "count f = size_fifo f")
  case False
  with assms have "FIFO_PushOverwrite f b =
      Inr (f\<lparr>count := count f + 1, buffer := (buffer f)[unat (head f) := b],
              head := (head f + 1) mod size_fifo f\<rparr>)"
    by (auto simp: FIFO_PushOverwrite_def store_at_head_def array_write_def umod_def
          ring_ok_def fifo_inv_def storage_ok_def word_less_nat_alt)
  with push_ring_ok [OF assms False, of b] show ?thesis by simp
next
  case True
  with assms have "FIFO_PushOverwrite f b =
      Inr (f\<lparr>tail := (tail f + 1) mod size_fifo f,
              buffer := (buffer f)[unat (head f) := b],
              head := (head f + 1) mod size_fifo f\<rparr>)"
    by (auto simp: FIFO_PushOverwrite_def store_at_head_def array_write_def umod_def
          ring_ok_def fifo_inv_def storage_ok_def word_less_nat_alt)
  with push_overwrite_ring_ok [OF assms True, of b] show ?thesis by simp
qed

lemma FIFO_Pop_preserves:
  assumes "ring_ok f"
  shows "\<exists>d f'. FIFO_Pop f = Inr (d, f') \<and> ring_ok f'"
proof (cases "count f = 0")
  case True
  then have "FIFO_Pop f = Inr (None, f)" by (simp add: FIFO_Pop_def)
  with assms show ?thesis by blast
next
  case False
  with assms show ?thesis using FIFO_Pop_nonempty by blast
qed

lemma FIFO_Peek_no_fault:
  assumes "ring_ok f"
  shows "\<exists>d. FIFO_Peek f i = Inr d"
proof -
  from assms have t: "tail f < size_fifo f"
    and st: "unat (size_fifo f) \<le> length (buffer f)"
    by (simp_all add: ring_ok_def fifo_inv_def storage_ok_def)
  from t have nz: "size_fifo f \<noteq> 0" by auto
  then have "(tail f + i) mod size_fifo f < size_fifo f" by (rule word_mod_lt)
  then have "unat ((tail f + i) mod size_fifo f) < length (buffer f)"
    using st by (simp add: word_less_nat_alt)
  with nz show ?thesis
    by (simp add: FIFO_Peek_def umod_def array_read_def)
qed

lemma FIFO_Reset_preserves:
  assumes "ring_ok f"
  shows "ring_ok (FIFO_Reset f)"
proof -
  from assms have "tail f < size_fifo f" by (simp add: ring_ok_def fifo_inv_def)
  then have "size_fifo f \<noteq> 0" by auto
  then have "0 < size_fifo f" by (simp add: word_neq_0_conv)
  with assms show ?thesis
    by (simp add: ring_ok_def fifo_inv_def storage_ok_def FIFO_Reset_def)
qed

lemma FIFO_SetOverwrite_preserves:
  "ring_ok f \<Longrightarrow> ring_ok (FIFO_SetOverwrite f enable)"
  by (simp add: ring_ok_def fifo_inv_def storage_ok_def FIFO_SetOverwrite_def)

lemma apply_op_preserves:
  assumes "ring_ok f"
  shows "\<exists>f'. apply_op f x = Inr f' \<and> ring_ok f'"
proof (cases x)
  case (Push b)
  from FIFO_Push_preserves [OF assms, of b] obtain ok f' where
    "FIFO_Push f b = Inr (ok, f')" "ring_ok f'" by blast
  with Push show ?thesis by simp
next
  case (PushOverwrite b)
  with FIFO_PushOverwrite_preserves [OF assms, of b] show ?thesis by simp
next
  case Pop
  from FIFO_Pop_preserves [OF assms] obtain d f' where
    "FIFO_Pop f = Inr (d, f')" "ring_ok f'" by blast
  with Pop show ?thesis by simp
next
  case (Peek i)
  from FIFO_Peek_no_fault [OF assms, of i] obtain d where "FIFO_Peek f i = Inr d" by blast
  with Peek assms show ?thesis by simp
next
  case Reset
  with FIFO_Reset_preserves [OF assms] show ?thesis by simp
next
  case (SetOverwrite enable)
  with FIFO_SetOverwrite_preserves [OF assms] show ?thesis by simp
qed

lemma apply_ops_preserves:
  assumes "ring_ok f"
  shows "\<exists>f'. apply_ops f xs = Inr f' \<and> ring_ok f'"
  using assms
proof (induction xs arbitrary: f)
  case Nil
  then show ?case by simp
next
  case (Cons x xs)
  from apply_op_preserves [OF Cons.prems, of x] obtain f1 where
    "apply_op f x = Inr f1" "ring_ok f1" by blast
  with Cons.IH [of f1] show ?case by simp
qed

lemma empty_head_eq_tail:
  assumes "fifo_inv f" "count f = 0"
  shows "head f = tail f"
proof -
  from assms have "unat (head f) = unat (tail f)"
    by (simp add: fifo_inv_def word_less_nat_alt)
  then show ?thesis by (simp add: word_unat_eq_iff)
qed

text \<open>
  Claim C9. Starting from a ring set up by \<^verbatim>\<open>FIFO_Init\<close> or by a successful
  \<^verbatim>\<open>FIFO_Init_Dynamic\<close>, with a size of at least 1 and storage of at least that
  size, every sequence of \<^verbatim>\<open>FIFO_Push\<close>, \<^verbatim>\<open>FIFO_PushOverwrite\<close>,
  \<^verbatim>\<open>FIFO_Pop\<close>, \<^verbatim>\<open>FIFO_Peek\<close>, \<^verbatim>\<open>FIFO_Reset\<close> and
  \<^verbatim>\<open>FIFO_SetOverwrite\<close> runs without a fault and ends in a ring with
  \<open>count \<le> size\<close>, \<open>head < size\<close>, \<open>tail < size\<close> and
  \<open>head = (tail + count) mod size\<close>; so an empty ring has \<open>head = tail\<close>.
\<close>

theorem fifo_invariant_preserved:
  assumes "sz \<noteq> 0" and "unat sz \<le> length buf"
    and "f0 = FIFO_Init buf sz \<or> f0 = snd (FIFO_Init_Dynamic g sz (Some buf))"
  shows "\<exists>f. apply_ops f0 ops = Inr f \<and>
              count f \<le> size_fifo f \<and> head f < size_fifo f \<and> tail f < size_fifo f \<and>
              unat (head f) = (unat (tail f) + unat (count f)) mod unat (size_fifo f) \<and>
              (count f = 0 \<longrightarrow> head f = tail f)"
proof -
  from assms have "ring_ok f0"
    using FIFO_Init_ring_ok(1) FIFO_Init_Dynamic_ring_ok(2) by blast
  then obtain f where f: "apply_ops f0 ops = Inr f" "ring_ok f"
    using apply_ops_preserves by blast
  then have "fifo_inv f" by (simp add: ring_ok_def)
  moreover from this have "count f = 0 \<longrightarrow> head f = tail f"
    using empty_head_eq_tail [of f] by blast
  ultimately show ?thesis
    using f(1) unfolding fifo_inv_def by blast
qed

text \<open>Claim C9 on a run that fills a ring of capacity 4, overwrites, drains and resets it.\<close>

theorem fifo_invariant_preserved_witness:
  "(4 :: u16) \<noteq> 0 \<and> unat (4 :: u16) \<le> length [0, 0, 0, 0 :: u8] \<and>
   (\<exists>f. apply_ops (FIFO_Init [0, 0, 0, 0] 4)
          [Push 1, SetOverwrite True, Push 2, Push 3, Push 4, Push 5, Pop, Peek 0,
           PushOverwrite 6, Pop, Pop, Pop, Pop, Reset, PushOverwrite 7] = Inr f \<and>
        count f \<le> size_fifo f \<and> head f < size_fifo f \<and> tail f < size_fifo f \<and>
        unat (head f) = (unat (tail f) + unat (count f)) mod unat (size_fifo f) \<and>
        (count f = 0 \<longrightarrow> head f = tail f))"
proof -
  have h1: "(4 :: u16) \<noteq> 0" by simp
  have h2: "unat (4 :: u16) \<le> length [0, 0, 0, 0 :: u8]" by simp
  from fifo_invariant_preserved [OF h1 h2 disjI1 [OF refl]] h1 h2 show ?thesis by blast
qed

section \<open>Extracting a message\<close>

text \<open>
  The loop of \<^verbatim>\<open>Get_UART_Message\<close> pops up to \<open>L - i\<close> bytes: it runs to its
  end exactly when the ring holds that many, it writes the popped bytes into the
  output buffer from the index \<open>i\<close> on, and it XORs them into the checksum.
\<close>

lemma get_loop:
  assumes "ring_ok f" and "i \<le> L"
    and "unat i + length (take (unat L - unat i) (contents f)) \<le> length msg"
  shows "\<exists>f'. Get_UART_Message_loop f msg L cs i =
                 Inr (unat L - unat i \<le> length (contents f), f',
                      take (unat i) msg @ take (unat L - unat i) (contents f) @
                        drop (unat i + length (take (unat L - unat i) (contents f))) msg,
                      cs XOR xor_list (take (unat L - unat i) (contents f))) \<and>
               ring_ok f' \<and> contents f' = drop (unat L - unat i) (contents f) \<and>
               size_fifo f' = size_fifo f \<and> overwrite_enabled f' = overwrite_enabled f"
  using assms
proof (induction f msg L cs i rule: Get_UART_Message_loop.induct)
  case (1 fifo message message_length checksum i)
  note eq = Get_UART_Message_loop.simps [of fifo message message_length checksum i]
  show ?case
  proof (cases "i < message_length")
    case False
    with "1.prems"(2) have "unat message_length - unat i = 0"
      by (simp add: word_less_nat_alt word_le_nat_alt)
    with False "1.prems"(1) show ?thesis
      by (simp add: eq)
  next
    case True
    then obtain k where pos: "unat message_length - unat i = Suc k"
      and pos': "unat message_length - Suc (unat i) = k"
      by (metis Suc_diff_Suc word_less_nat_alt)
    show ?thesis
    proof (cases "count fifo = 0")
      case True
      then have "contents fifo = []" by (simp add: contents_Nil_iff)
      moreover from True have "FIFO_Pop fifo = Inr (None, fifo)" by (simp add: FIFO_Pop_def)
      ultimately show ?thesis
        using \<open>i < message_length\<close> "1.prems"(1) pos
        by (simp add: eq)
    next
      case False
      with "1.prems"(1) obtain f1 where f1: "FIFO_Pop fifo = Inr (Some (hd (contents fifo)), f1)"
        "ring_ok f1" "contents f1 = tl (contents fifo)" "size_fifo f1 = size_fifo fifo"
        "overwrite_enabled f1 = overwrite_enabled fifo"
        using FIFO_Pop_nonempty by blast
      from False obtain d ds where c: "contents fifo = d # ds"
        by (cases "contents fifo") (simp_all add: contents_Nil_iff)
      have pop: "FIFO_Pop fifo = Inr (Some d, f1)" using f1(1) c by simp
      have si: "unat (i + 1) = Suc (unat i)" using True by (rule unat_succ_u8)
      have il: "unat i < length message" using "1.prems"(3) pos c by simp
      then have w: "array_write message (unat i) d = Inr (message[unat i := d])"
        by (simp add: array_write_def)
      have p3: "unat (i + 1) + length (take (unat message_length - unat (i + 1)) (contents f1))
                  \<le> length (message[unat i := d])"
        using "1.prems"(3) pos pos' c f1(3) by (simp add: si)
      from "1.IH" [OF True pop refl refl w f1(2) succ_le_u8 [OF True] p3]
      obtain f2 where f2:
        "Get_UART_Message_loop f1 (message[unat i := d]) message_length (checksum XOR d) (i + 1) =
           Inr (unat message_length - unat (i + 1) \<le> length (contents f1), f2,
                take (unat (i + 1)) (message[unat i := d]) @
                  take (unat message_length - unat (i + 1)) (contents f1) @
                  drop (unat (i + 1) + length (take (unat message_length - unat (i + 1)) (contents f1)))
                    (message[unat i := d]),
                (checksum XOR d) XOR xor_list (take (unat message_length - unat (i + 1)) (contents f1)))"
        "ring_ok f2" "contents f2 = drop (unat message_length - unat (i + 1)) (contents f1)"
        "size_fifo f2 = size_fifo f1" "overwrite_enabled f2 = overwrite_enabled f1"
        by blast
      have "Get_UART_Message_loop fifo message message_length checksum i =
              Get_UART_Message_loop f1 (message[unat i := d]) message_length (checksum XOR d) (i + 1)"
        using True pop w by (simp add: eq)
      moreover have "take (unat (i + 1)) (message[unat i := d]) = take (unat i) message @ [d]"
        using il by (simp add: si take_Suc_conv_app_nth)
      ultimately show ?thesis
        using f2 f1 c pos pos'
        by (simp add: si xor.assoc)
    qed
  qed
qed

lemma get_message_framed:
  assumes "ring_ok f" and "contents f = MESSAGE_START_BYTE # L # rest" and "3 \<le> L"
    and "2 + length (take (unat L - 2) rest) \<le> length msg"
  shows "\<exists>f'. Get_UART_Message f msg len =
                 Inr (unat L - 2 \<le> length rest \<and> xor_list (take (unat L - 2) rest) = 0, f',
                      MESSAGE_START_BYTE # L # take (unat L - 2) rest @
                        drop (2 + length (take (unat L - 2) rest)) msg,
                      L) \<and>
               ring_ok f' \<and> contents f' = drop (unat L - 2) rest \<and>
               size_fifo f' = size_fifo f \<and> overwrite_enabled f' = overwrite_enabled f"
proof -
  let ?d = "take (unat L - 2) rest"
  from assms(2) have ne: "count f \<noteq> 0" by (auto simp: contents_Nil_iff [symmetric])
  with assms(1,2) obtain f1 where f1: "FIFO_Pop f = Inr (Some MESSAGE_START_BYTE, f1)"
    "ring_ok f1" "contents f1 = L # rest" "size_fifo f1 = size_fifo f"
    "overwrite_enabled f1 = overwrite_enabled f"
    using FIFO_Pop_nonempty [of f] by auto
  from f1(3) have "count f1 \<noteq> 0" by (auto simp: contents_Nil_iff [symmetric])
  with f1(2,3) obtain f2 where f2: "FIFO_Pop f1 = Inr (Some L, f2)"
    "ring_ok f2" "contents f2 = rest" "size_fifo f2 = size_fifo f1"
    "overwrite_enabled f2 = overwrite_enabled f1"
    using FIFO_Pop_nonempty [of f1] by auto
  let ?m1 = "msg[0 := MESSAGE_START_BYTE, Suc 0 := L]"
  from assms(4) have l2: "2 \<le> length msg" by simp
  then have "0 < length msg" and "1 < length msg" by arith+
  then have w0: "array_write msg 0 MESSAGE_START_BYTE = Inr (msg[0 := MESSAGE_START_BYTE])"
    and w1: "array_write (msg[0 := MESSAGE_START_BYTE]) (Suc 0) L = Inr ?m1"
    by (simp_all add: array_write_def)
  have two: "(2 :: u8) \<le> L" using assms(3) by unat_arith
  have u2: "unat (2 :: u8) = 2" by simp
  have room: "unat (2 :: u8) + length (take (unat L - unat (2 :: u8)) (contents f2)) \<le> length ?m1"
    using assms(4) f2(3) by simp
  obtain a b ms where ms: "msg = a # b # ms"
    using l2 by (cases msg; cases "tl msg") auto
  have t2: "take 2 ?m1 = [MESSAGE_START_BYTE, L]"
    and d2: "drop (2 + length ?d) ?m1 = drop (2 + length ?d) msg"
    by (simp_all add: ms)
  from get_loop [OF f2(2) two room, of 0] obtain f3 where f3:
    "Get_UART_Message_loop f2 ?m1 L 0 2 =
       Inr (unat L - 2 \<le> length rest, f3,
            [MESSAGE_START_BYTE, L] @ ?d @ drop (2 + length ?d) msg, xor_list ?d)"
    "ring_ok f3" "contents f3 = drop (unat L - 2) rest" "size_fifo f3 = size_fifo f2"
    "overwrite_enabled f3 = overwrite_enabled f2"
    unfolding u2 f2(3) t2 d2 by auto
  have nl: "\<not> L < 3" using assms(3) by (simp add: not_less)
  have "Get_UART_Message f msg len =
          Inr (unat L - 2 \<le> length rest \<and> xor_list ?d = 0, f3,
               MESSAGE_START_BYTE # L # ?d @ drop (2 + length ?d) msg, L)"
    using ne nl
    by (simp add: Get_UART_Message_def FIFO_IsEmpty_def f1(1) f2(1) w0 w1 f3(1))
  with f3 f2 f1 show ?thesis by simp
qed

text \<open>
  Claim C7. On a ring that is not empty and whose byte at the tail is not the start
  marker, \<^verbatim>\<open>Get_UART_Message\<close> returns failure and has consumed exactly that
  byte: the count is one less, the tail one further modulo the size, and nothing else
  of the ring, of the output buffer or of \<^verbatim>\<open>*length\<close> has changed.
\<close>

theorem get_invalid_start:
  assumes "ring_ok f" and "count f \<noteq> 0"
    and "buffer f ! unat (tail f) \<noteq> MESSAGE_START_BYTE"
  shows "\<exists>f'. Get_UART_Message f msg len = Inr (False, f', msg, len) \<and>
               unat (count f') + 1 = unat (count f) \<and>
               tail f' = (tail f + 1) mod size_fifo f \<and>
               unat (tail f') = (unat (tail f) + 1) mod unat (size_fifo f) \<and>
               head f' = head f \<and> buffer f' = buffer f \<and> size_fifo f' = size_fifo f \<and>
               contents f' = tl (contents f)"
proof -
  let ?f' = "f\<lparr>tail := (tail f + 1) mod size_fifo f, count := count f - 1\<rparr>"
  from assms(1) have t: "tail f < size_fifo f" by (simp add: ring_ok_def fifo_inv_def)
  have "FIFO_Pop f = Inr (Some (buffer f ! unat (tail f)), ?f')"
    using assms(1,2) by (rule pop_result)
  with assms(2,3) have "Get_UART_Message f msg len = Inr (False, ?f', msg, len)"
    by (simp add: Get_UART_Message_def FIFO_IsEmpty_def)
  moreover have "unat (count ?f') + 1 = unat (count f)"
    using assms(2) by (simp add: unat_pred_count unat_gt_0)
  moreover have "unat (tail ?f') = (unat (tail f) + 1) mod unat (size_fifo f)"
    using t by (simp add: unat_succ_mod)
  moreover have "contents ?f' = tl (contents f)"
    using assms(1,2) by (rule pop_contents(1))
  ultimately show ?thesis by (intro exI [of _ ?f']) simp
qed

text \<open>Claim C7 on a ring that holds the byte 0x55 ahead of a message.\<close>

theorem get_invalid_start_witness:
  "ring_ok \<lparr>buffer = [0x55, 0xAA, 3, 0], size_fifo = 4, head = 3, tail = 0, count = 3,
      high_watermark = 3, low_watermark = 1, overwrite_enabled = False\<rparr> \<and>
   (\<exists>f'. Get_UART_Message \<lparr>buffer = [0x55, 0xAA, 3, 0], size_fifo = 4, head = 3, tail = 0,
      count = 3, high_watermark = 3, low_watermark = 1, overwrite_enabled = False\<rparr> [7, 7, 7] 7 =
        Inr (False, f', [7, 7, 7], 7) \<and>
      count f' = 2 \<and> tail f' = 1 \<and> contents f' = [0xAA, 3])"
proof -
  let ?f = "\<lparr>buffer = [0x55, 0xAA, 3, 0], size_fifo = 4, head = 3, tail = 0, count = 3,
      high_watermark = 3, low_watermark = 1, overwrite_enabled = False\<rparr>"
  have h1: "ring_ok ?f"
    by (simp add: ring_ok_def fifo_inv_def storage_ok_def word_less_nat_alt word_le_nat_alt)
  have h2: "count ?f \<noteq> 0" by simp
  have h3: "buffer ?f ! unat (tail ?f) \<noteq> MESSAGE_START_BYTE"
    by (simp add: MESSAGE_START_BYTE_def)
  have c: "contents ?f = [0x55, 0xAA, 3]" by (simp add: contents_def upt_conv_Cons)
  from get_invalid_start [OF h1 h2 h3, of "[7, 7, 7]" 7] obtain f' where
    f': "Get_UART_Message ?f [7, 7, 7] 7 = Inr (False, f', [7, 7, 7], 7)"
    "unat (count f') + 1 = unat (count ?f)" "tail f' = (tail ?f + 1) mod size_fifo ?f"
    "contents f' = tl (contents ?f)"
    by blast
  from f'(2) have "unat (count f') = unat (2 :: u16)" by simp
  then have "count f' = 2" by (simp only: word_unat_eq_iff)
  with f' show ?thesis
    using h1 by (intro conjI exI [of _ f']) (simp_all add: c)
qed

text \<open>
  Claim C6. When the ring holds, from its tail on, the start byte, a length byte
  \<open>L \<ge> 3\<close> and \<open>L - 2\<close> further bytes, and the output buffer has room for \<open>L\<close>
  bytes, \<^verbatim>\<open>Get_UART_Message\<close> consumes these \<open>L\<close> bytes and returns success
  exactly when the XOR of the bytes at offsets 2 to \<open>L - 1\<close> is zero: it fails, on the
  checksum, whenever that XOR is not zero.
\<close>

theorem get_checksum:
  assumes "ring_ok f" and "3 \<le> L"
    and "contents f = MESSAGE_START_BYTE # L # payload @ rest"
    and "length payload = unat L - 2" and "unat L \<le> length msg"
  shows "\<exists>f'. Get_UART_Message f msg len =
                 Inr (xor_list payload = 0, f',
                      MESSAGE_START_BYTE # L # payload @ drop (unat L) msg, L) \<and>
               contents f' = rest"
proof -
  have u: "3 \<le> unat L" using assms(2) by (simp add: word_le_nat_alt)
  have tk: "take (unat L - 2) (payload @ rest) = payload"
    and dr: "drop (unat L - 2) (payload @ rest) = rest"
    using assms(4) by simp_all
  have e1: "(unat L - 2 \<le> length (payload @ rest)) = True"
    using assms(4) by simp
  have e2: "2 + length payload = unat L"
    using assms(4) u by simp
  have room: "2 + length (take (unat L - 2) (payload @ rest)) \<le> length msg"
    using assms(5) unfolding tk e2 .
  from get_message_framed [OF assms(1,3,2) room, of len] obtain f' where
    "Get_UART_Message f msg len =
       Inr (unat L - 2 \<le> length (payload @ rest) \<and>
              xor_list (take (unat L - 2) (payload @ rest)) = 0, f',
            MESSAGE_START_BYTE # L # take (unat L - 2) (payload @ rest) @
              drop (2 + length (take (unat L - 2) (payload @ rest))) msg, L)"
    "contents f' = drop (unat L - 2) (payload @ rest)"
    by blast
  then have "Get_UART_Message f msg len =
       Inr (xor_list payload = 0, f',
            MESSAGE_START_BYTE # L # payload @ drop (unat L) msg, L)"
    and "contents f' = rest"
    unfolding tk dr e1 e2 by simp_all
  then show ?thesis by blast
qed

text \<open>
  Claim C6 on the two examples of the specification: a ring of capacity 8 into which
  the bytes AA 04 10 14, respectively AA 04 10 10, were pushed. The first extraction
  fails, the second succeeds with the length 4.
\<close>

theorem get_checksum_witness:
  "push_all (FIFO_Init [0, 0, 0, 0, 0, 0, 0, 0] 8) [0xAA, 0x04, 0x10, 0x14] =
     Inr ([True, True, True, True],
          \<lparr>buffer = [0xAA, 0x04, 0x10, 0x14, 0, 0, 0, 0], size_fifo = 8, head = 4, tail = 0,
           count = 4, high_watermark = 6, low_watermark = 2, overwrite_enabled = False\<rparr>) \<and>
   (\<exists>f'. Get_UART_Message
           \<lparr>buffer = [0xAA, 0x04, 0x10, 0x14, 0, 0, 0, 0], size_fifo = 8, head = 4, tail = 0,
            count = 4, high_watermark = 6, low_watermark = 2, overwrite_enabled = False\<rparr>
           [0, 0, 0, 0] 0 = Inr (False, f', [0xAA, 0x04, 0x10, 0x14], 4)) \<and>
   push_all (FIFO_Init [0, 0, 0, 0, 0, 0, 0, 0] 8) [0xAA, 0x04, 0x10, 0x10] =
     Inr ([True, True, True, True],
          \<lparr>buffer = [0xAA, 0x04, 0x10, 0x10, 0, 0, 0, 0], size_fifo = 8, head = 4, tail = 0,
           count = 4, high_watermark = 6, low_watermark = 2, overwrite_enabled = False\<rparr>) \<and>
   (\<exists>f'. Get_UART_Message
           \<lparr>buffer = [0xAA, 0x04, 0x10, 0x10, 0, 0, 0, 0], size_fifo = 8, head = 4, tail = 0,
            count = 4, high_watermark = 6, low_watermark = 2, overwrite_enabled = False\<rparr>
           [0, 0, 0, 0] 0 = Inr (True, f', [0xAA, 0x04, 0x10, 0x10], 4))"
proof -
  let ?bad = "\<lparr>buffer = [0xAA, 0x04, 0x10, 0x14, 0, 0, 0, 0], size_fifo = 8, head = 4,
     tail = 0, count = 4, high_watermark = 6, low_watermark = 2, overwrite_enabled = False\<rparr>"
  let ?good = "\<lparr>buffer = [0xAA, 0x04, 0x10, 0x10, 0, 0, 0, 0], size_fifo = 8, head = 4,
     tail = 0, count = 4, high_watermark = 6, low_watermark = 2, overwrite_enabled = False\<rparr>"
  have p1: "push_all (FIFO_Init [0, 0, 0, 0, 0, 0, 0, 0] 8) [0xAA, 0x04, 0x10, 0x14] =
              Inr ([True, True, True, True], ?bad)"
    by (simp add: eval_defs)
  have p2: "push_all (FIFO_Init [0, 0, 0, 0, 0, 0, 0, 0] 8) [0xAA, 0x04, 0x10, 0x10] =
              Inr ([True, True, True, True], ?good)"
    by (simp add: eval_defs)
  have ok: "ring_ok ?bad" "ring_ok ?good"
    by (simp_all add: ring_ok_def fifo_inv_def storage_ok_def word_less_nat_alt word_le_nat_alt)
  have L: "(3 :: u8) \<le> 4" by (simp add: word_le_nat_alt)
  have c1: "contents ?bad = MESSAGE_START_BYTE # 4 # [0x10, 0x14] @ []"
    and c2: "contents ?good = MESSAGE_START_BYTE # 4 # [0x10, 0x10] @ []"
    by (simp_all add: contents_def upt_conv_Cons MESSAGE_START_BYTE_def)
  have n: "length [0x10, 0x14 :: u8] = unat (4 :: u8) - 2"
    "length [0x10, 0x10 :: u8] = unat (4 :: u8) - 2"
    and m: "unat (4 :: u8) \<le> length [0, 0, 0, 0 :: u8]"
    by simp_all
  from get_checksum [OF ok(1) L c1 n(1) m, of 0]
  have g1: "\<exists>f'. Get_UART_Message ?bad [0, 0, 0, 0] 0 = Inr (False, f', [0xAA, 0x04, 0x10, 0x14], 4)"
    by (auto simp: MESSAGE_START_BYTE_def)
  from get_checksum [OF ok(2) L c2 n(2) m, of 0]
  have g2: "\<exists>f'. Get_UART_Message ?good [0, 0, 0, 0] 0 = Inr (True, f', [0xAA, 0x04, 0x10, 0x10], 4)"
    by (auto simp: MESSAGE_START_BYTE_def)
  from p1 g1 p2 g2 show ?thesis by blast
qed

text \<open>
  Claim C10. When \<^verbatim>\<open>Get_UART_Message\<close> has popped the start byte and a length
  byte \<open>L \<ge> 3\<close> and returns failure, it has written \<open>L\<close> to \<^verbatim>\<open>*length\<close> and
  the start byte, \<open>L\<close> and every payload byte it popped to the output buffer, the
  rest of which is unchanged. When the ring held all \<open>L - 2\<close> payload bytes, the
  failure is the checksum, and the first \<open>L\<close> bytes of the output buffer are the whole
  message.
\<close>

theorem get_failure_leaves_output:
  assumes "ring_ok f" and "contents f = MESSAGE_START_BYTE # L # rest" and "3 \<le> L"
    and "2 + length (take (unat L - 2) rest) \<le> length msg"
    and "Get_UART_Message f msg len = Inr (False, f', msg', len')"
  shows "len' = L \<and>
         msg' = MESSAGE_START_BYTE # L # take (unat L - 2) rest @
                  drop (2 + length (take (unat L - 2) rest)) msg \<and>
         (unat L - 2 \<le> length rest \<longrightarrow>
            xor_list (take (unat L - 2) rest) \<noteq> 0 \<and>
            take (unat L) msg' = take (unat L) (contents f))"
proof -
  have u: "3 \<le> unat L" using assms(3) by (simp add: word_le_nat_alt)
  from get_message_framed [OF assms(1-4), of len] obtain g where
    "Get_UART_Message f msg len =
       Inr (unat L - 2 \<le> length rest \<and> xor_list (take (unat L - 2) rest) = 0, g,
            MESSAGE_START_BYTE # L # take (unat L - 2) rest @
              drop (2 + length (take (unat L - 2) rest)) msg, L)"
    by blast
  with assms(5) have "(False, f', msg', len') =
      (unat L - 2 \<le> length rest \<and> xor_list (take (unat L - 2) rest) = 0, g,
       MESSAGE_START_BYTE # L # take (unat L - 2) rest @
         drop (2 + length (take (unat L - 2) rest)) msg, L)"
    by (simp only: sum.inject)
  then have r: "len' = L"
    "msg' = MESSAGE_START_BYTE # L # take (unat L - 2) rest @
              drop (2 + length (take (unat L - 2) rest)) msg"
    "\<not> (unat L - 2 \<le> length rest \<and> xor_list (take (unat L - 2) rest) = 0)"
    by (simp_all only: prod.inject simp_thms)
  have "take (unat L) msg' = take (unat L) (contents f)" if "unat L - 2 \<le> length rest"
  proof -
    define k where "k = unat L - 2"
    then have k: "unat L = Suc (Suc k)" using u by simp
    from that have "k \<le> length rest" by (simp add: k_def)
    then show ?thesis unfolding r(2) assms(2) k by simp
  qed
  with r show ?thesis by blast
qed

text \<open>
  Claim C10 on a message with a wrong checksum and on a message cut short after one
  payload byte.
\<close>

theorem get_failure_leaves_output_witness:
  "Get_UART_Message
     \<lparr>buffer = [0xAA, 0x04, 0x10, 0x14, 0, 0, 0, 0], size_fifo = 8, head = 4, tail = 0,
      count = 4, high_watermark = 6, low_watermark = 2, overwrite_enabled = False\<rparr>
     [9, 9, 9, 9, 9] 9 =
     Inr (False,
          \<lparr>buffer = [0xAA, 0x04, 0x10, 0x14, 0, 0, 0, 0], size_fifo = 8, head = 4, tail = 4,
           count = 0, high_watermark = 6, low_watermark = 2, overwrite_enabled = False\<rparr>,
          [0xAA, 0x04, 0x10, 0x14, 9], 4) \<and>
   Get_UART_Message
     \<lparr>buffer = [0xAA, 0x05, 0x01, 0, 0, 0, 0, 0], size_fifo = 8, head = 3, tail = 0,
      count = 3, high_watermark = 6, low_watermark = 2, overwrite_enabled = False\<rparr>
     [9, 9, 9, 9, 9] 9 =
     Inr (False,
          \<lparr>buffer = [0xAA, 0x05, 0x01, 0, 0, 0, 0, 0], size_fifo = 8, head = 3, tail = 3,
           count = 0, high_watermark = 6, low_watermark = 2, overwrite_enabled = False\<rparr>,
          [0xAA, 0x05, 0x01, 9, 9], 5)"
proof -
  let ?bad = "\<lparr>buffer = [0xAA, 0x04, 0x10, 0x14, 0, 0, 0, 0], size_fifo = 8, head = 4,
     tail = 0, count = 4, high_watermark = 6, low_watermark = 2, overwrite_enabled = False\<rparr>"
  let ?short = "\<lparr>buffer = [0xAA, 0x05, 0x01, 0, 0, 0, 0, 0], size_fifo = 8, head = 3,
     tail = 0, count = 3, high_watermark = 6, low_watermark = 2, overwrite_enabled = False\<rparr>"
  have ok: "ring_ok ?bad" "ring_ok ?short"
    by (simp_all add: ring_ok_def fifo_inv_def storage_ok_def word_less_nat_alt word_le_nat_alt)
  have L: "(3 :: u8) \<le> 4" "(3 :: u8) \<le> 5" by (simp_all add: word_le_nat_alt)
  have c1: "contents ?bad = MESSAGE_START_BYTE # 4 # [0x10, 0x14]"
    and c2: "contents ?short = MESSAGE_START_BYTE # 5 # [0x01]"
    by (simp_all add: contents_def upt_conv_Cons MESSAGE_START_BYTE_def)
  have m: "2 + length (take (unat (4 :: u8) - 2) [0x10, 0x14 :: u8]) \<le> length [9, 9, 9, 9, 9 :: u8]"
    "2 + length (take (unat (5 :: u8) - 2) [0x01 :: u8]) \<le> length [9, 9, 9, 9, 9 :: u8]"
    by simp_all
  obtain f1 m1 l1 where g1: "Get_UART_Message ?bad [9, 9, 9, 9, 9] 9 = Inr (False, f1, m1, l1)"
    and f1: "f1 = \<lparr>buffer = [0xAA, 0x04, 0x10, 0x14, 0, 0, 0, 0], size_fifo = 8, head = 4, tail = 4,
           count = 0, high_watermark = 6, low_watermark = 2, overwrite_enabled = False\<rparr>"
    by (simp add: Get_UART_Message_def Get_UART_Message_loop.simps eval_defs)
  obtain f2 m2 l2 where g2: "Get_UART_Message ?short [9, 9, 9, 9, 9] 9 = Inr (False, f2, m2, l2)"
    and f2: "f2 = \<lparr>buffer = [0xAA, 0x05, 0x01, 0, 0, 0, 0, 0], size_fifo = 8, head = 3, tail = 3,
           count = 0, high_watermark = 6, low_watermark = 2, overwrite_enabled = False\<rparr>"
    by (simp add: Get_UART_Message_def Get_UART_Message_loop.simps eval_defs)
  from get_failure_leaves_output [OF ok(1) c1 L(1) m(1) g1]
  have r1: "l1 = 4" "m1 = [0xAA, 0x04, 0x10, 0x14, 9]"
    by (simp_all add: MESSAGE_START_BYTE_def)
  from get_failure_leaves_output [OF ok(2) c2 L(2) m(2) g2]
  have r2: "l2 = 5" "m2 = [0xAA, 0x05, 0x01, 9, 9]"
    by (simp_all add: MESSAGE_START_BYTE_def)
  from g1 g2 show ?thesis unfolding f1 f2 r1 r2 by simp
qed

section \<open>Adding a message\<close>

text \<open>
  \<^verbatim>\<open>Add_UART_Message\<close> compares the message length with
  \<^verbatim>\<open>BUFFER_SIZE - count\<close>, not with the free capacity of the ring it is given.
  The two agree on a ring of capacity \<^verbatim>\<open>BUFFER_SIZE\<close> (128), and there the
  function does what its comment says (\<open>add_message_BUFFER_SIZE_ring\<close>). On a ring
  of another capacity they differ.
\<close>

lemma buffer_size_check:
  assumes "count f \<le> 128"
  shows "(BUFFER_SIZE - count f < ucast (len :: u8)) = (128 - unat (count f) < unat len)"
proof -
  have "unat (BUFFER_SIZE - count f) = 128 - unat (count f)"
    using assms by (simp add: BUFFER_SIZE_def unat_sub)
  moreover have "unat (ucast len :: u16) = unat len"
  proof -
    have "unat len < 2 ^ 8" using unsigned_less [of len] by simp
    then have "unat len < 2 ^ 16" by simp
    then show ?thesis by (simp add: unsigned_ucast_eq take_bit_nat_eq_self)
  qed
  ultimately show ?thesis by (simp add: word_less_nat_alt)
qed

lemma add_loop:
  assumes "ring_ok f" and "i \<le> len" and "unat len \<le> length m"
    and "length (contents f) + (unat len - unat i) \<le> unat (size_fifo f)"
  shows "\<exists>f'. Add_UART_Message_loop f m len i = Inr (True, f') \<and> ring_ok f' \<and>
               contents f' = contents f @ drop (unat i) (take (unat len) m) \<and>
               size_fifo f' = size_fifo f \<and> overwrite_enabled f' = overwrite_enabled f"
  using assms
proof (induction f m len i rule: Add_UART_Message_loop.induct)
  case (1 fifo message len i)
  note eq = Add_UART_Message_loop.simps [of fifo message len i]
  show ?case
  proof (cases "i < len")
    case False
    with "1.prems"(2) have "unat len \<le> unat i"
      by (simp add: word_less_nat_alt)
    with False "1.prems"(1) show ?thesis
      by (simp add: eq)
  next
    case True
    then obtain k where pos: "unat len - unat i = Suc k"
      and pos': "unat len - Suc (unat i) = k"
      by (metis Suc_diff_Suc word_less_nat_alt)
    have si: "unat (i + 1) = Suc (unat i)" using True by (rule unat_succ_u8)
    have il: "unat i < length message"
      using True "1.prems"(3) by (simp add: word_less_nat_alt)
    then have rd: "array_read message (unat i) = Inr (message ! unat i)"
      by (simp add: array_read_def)
    from "1.prems"(4) pos have "count fifo \<noteq> size_fifo fifo"
      by (intro not_full_if_room) simp
    with "1.prems"(1) obtain f1 where f1: "FIFO_Push fifo (message ! unat i) = Inr (True, f1)"
      "ring_ok f1" "contents f1 = contents fifo @ [message ! unat i]"
      "size_fifo f1 = size_fifo fifo" "overwrite_enabled f1 = overwrite_enabled fifo"
      using FIFO_Push_not_full by blast
    have room: "length (contents f1) + (unat len - unat (i + 1)) \<le> unat (size_fifo f1)"
      using "1.prems"(4) pos pos' f1(3,4) by (simp add: si)
    from "1.IH" [OF True rd f1(1) refl _ f1(2) succ_le_u8 [OF True] "1.prems"(3) room]
    obtain f2 where f2: "Add_UART_Message_loop f1 message len (i + 1) = Inr (True, f2)"
      "ring_ok f2"
      "contents f2 = contents f1 @ drop (unat (i + 1)) (take (unat len) message)"
      "size_fifo f2 = size_fifo f1" "overwrite_enabled f2 = overwrite_enabled f1"
      by auto
    have "Add_UART_Message_loop fifo message len i = Add_UART_Message_loop f1 message len (i + 1)"
      using True rd f1(1) by (simp add: eq)
    moreover have "drop (unat i) (take (unat len) message) =
                     message ! unat i # drop (Suc (unat i)) (take (unat len) message)"
    proof -
      have lt: "unat i < unat len" using True by (simp add: word_less_nat_alt)
      with il have "unat i < length (take (unat len) message)" by simp
      from Cons_nth_drop_Suc [OF this, symmetric] lt show ?thesis by simp
    qed
    ultimately show ?thesis
      using f2 f1 by (simp add: si)
  qed
qed

lemma add_message_fits:
  assumes "ring_ok f" and "3 \<le> len" and "unat len \<le> length m"
    and "length (contents f) + unat len \<le> unat (size_fifo f)"
    and "\<not> BUFFER_SIZE - count f < ucast len"
  shows "\<exists>f'. Add_UART_Message f m len = Inr (True, f') \<and> ring_ok f' \<and>
               contents f' = contents f @ take (unat len) m \<and>
               size_fifo f' = size_fifo f \<and> overwrite_enabled f' = overwrite_enabled f"
proof -
  have "\<not> len < 3" using assms(2) by (simp add: not_less)
  with assms(5) have "Add_UART_Message f m len = Add_UART_Message_loop f m len 0"
    by (simp add: Add_UART_Message_def)
  moreover have "length (contents f) + (unat len - unat (0 :: u8)) \<le> unat (size_fifo f)"
    using assms(4) by simp
  ultimately show ?thesis
    using add_loop [OF assms(1) _ assms(3), of 0] by simp
qed

lemma add_message_BUFFER_SIZE_ring:
  assumes "ring_ok f" and "size_fifo f = BUFFER_SIZE" and "3 \<le> len"
    and "unat len \<le> length m"
  shows "(spec_free_capacity f < unat len \<longrightarrow> Add_UART_Message f m len = Inr (False, f)) \<and>
         (unat len \<le> spec_free_capacity f \<longrightarrow>
            (\<exists>f'. Add_UART_Message f m len = Inr (True, f') \<and> ring_ok f' \<and>
                  contents f' = contents f @ take (unat len) m))"
proof -
  from assms(1,2) have c: "count f \<le> 128"
    by (simp add: ring_ok_def fifo_inv_def BUFFER_SIZE_def)
  have free: "spec_free_capacity f = 128 - unat (count f)"
    by (simp add: spec_free_capacity_def assms(2) BUFFER_SIZE_def)
  have chk: "(BUFFER_SIZE - count f < ucast len) = (spec_free_capacity f < unat len)"
    using buffer_size_check [OF c] by (simp add: free)
  have "Add_UART_Message f m len = Inr (False, f)" if "spec_free_capacity f < unat len"
    using that by (simp add: Add_UART_Message_def chk)
  moreover have "\<exists>f'. Add_UART_Message f m len = Inr (True, f') \<and> ring_ok f' \<and>
                  contents f' = contents f @ take (unat len) m"
    if "unat len \<le> spec_free_capacity f"
  proof -
    from that have "\<not> BUFFER_SIZE - count f < ucast len" by (simp add: chk)
    moreover from that c have "length (contents f) + unat len \<le> unat (size_fifo f)"
      by (simp add: length_contents free assms(2) BUFFER_SIZE_def word_le_nat_alt)
    ultimately show ?thesis
      using add_message_fits [OF assms(1,3,4)] by blast
  qed
  ultimately show ?thesis by blast
qed

text \<open>
  Claim C1 says that \<^verbatim>\<open>Add_UART_Message\<close> fails exactly when the free capacity
  of the ring, its size minus its count, is less than the length of the message. The
  code decides otherwise on three rings. A ring of capacity 200 that holds 125 bytes
  has 75 free, and a message of 10 bytes is refused. A ring of capacity 4 with
  overwrite enabled has 4 free, and a message of 5 bytes is accepted, its start byte
  overwritten by its last byte. The same ring with overwrite disabled refuses the
  message, but only after it has stored the first 4 bytes.
\<close>

theorem add_message_ignores_ring_size:
  "ring_ok \<lparr>buffer = replicate 200 0, size_fifo = 200, head = 125, tail = 0, count = 125,
            high_watermark = 150, low_watermark = 50, overwrite_enabled = False\<rparr> \<and>
   spec_free_capacity
     \<lparr>buffer = replicate 200 0, size_fifo = 200, head = 125, tail = 0, count = 125,
      high_watermark = 150, low_watermark = 50, overwrite_enabled = False\<rparr> = 75 \<and>
   Add_UART_Message
     \<lparr>buffer = replicate 200 0, size_fifo = 200, head = 125, tail = 0, count = 125,
      high_watermark = 150, low_watermark = 50, overwrite_enabled = False\<rparr>
     [0xAA, 10, 1, 2, 3, 4, 5, 6, 7, 0] 10 =
     Inr (False,
          \<lparr>buffer = replicate 200 0, size_fifo = 200, head = 125, tail = 0, count = 125,
           high_watermark = 150, low_watermark = 50, overwrite_enabled = False\<rparr>) \<and>
   ring_ok (FIFO_SetOverwrite (FIFO_Init [0, 0, 0, 0] 4) True) \<and>
   spec_free_capacity (FIFO_SetOverwrite (FIFO_Init [0, 0, 0, 0] 4) True) = 4 \<and>
   Add_UART_Message (FIFO_SetOverwrite (FIFO_Init [0, 0, 0, 0] 4) True) [0xAA, 5, 1, 2, 3] 5 =
     Inr (True,
          \<lparr>buffer = [3, 5, 1, 2], size_fifo = 4, head = 1, tail = 1, count = 4,
           high_watermark = 3, low_watermark = 1, overwrite_enabled = True\<rparr>) \<and>
   Add_UART_Message (FIFO_Init [0, 0, 0, 0] 4) [0xAA, 5, 1, 2, 3] 5 =
     Inr (False,
          \<lparr>buffer = [0xAA, 5, 1, 2], size_fifo = 4, head = 0, tail = 0, count = 4,
           high_watermark = 3, low_watermark = 1, overwrite_enabled = False\<rparr>)"
proof -
  have "ring_ok \<lparr>buffer = replicate 200 0, size_fifo = 200, head = 125, tail = 0, count = 125,
            high_watermark = 150, low_watermark = 50, overwrite_enabled = False\<rparr>"
    by (simp add: ring_ok_def fifo_inv_def storage_ok_def word_less_nat_alt word_le_nat_alt)
  moreover have "spec_free_capacity
     \<lparr>buffer = replicate 200 0, size_fifo = 200, head = 125, tail = 0, count = 125,
      high_watermark = 150, low_watermark = 50, overwrite_enabled = False\<rparr> = 75"
    by (simp add: spec_free_capacity_def)
  moreover have "Add_UART_Message
     \<lparr>buffer = replicate 200 0, size_fifo = 200, head = 125, tail = 0, count = 125,
      high_watermark = 150, low_watermark = 50, overwrite_enabled = False\<rparr>
     [0xAA, 10, 1, 2, 3, 4, 5, 6, 7, 0] 10 =
     Inr (False,
          \<lparr>buffer = replicate 200 0, size_fifo = 200, head = 125, tail = 0, count = 125,
           high_watermark = 150, low_watermark = 50, overwrite_enabled = False\<rparr>)"
    by (simp add: Add_UART_Message_def BUFFER_SIZE_def word_less_nat_alt)
  moreover have "ring_ok (FIFO_SetOverwrite (FIFO_Init [0, 0, 0, 0] 4) True)"
    by (simp add: ring_ok_def fifo_inv_def storage_ok_def FIFO_SetOverwrite_def FIFO_Init_def)
  moreover have "spec_free_capacity (FIFO_SetOverwrite (FIFO_Init [0, 0, 0, 0] 4) True) = 4"
    by (simp add: spec_free_capacity_def FIFO_SetOverwrite_def FIFO_Init_def)
  moreover have "Add_UART_Message (FIFO_SetOverwrite (FIFO_Init [0, 0, 0, 0] 4) True)
      [0xAA, 5, 1, 2, 3] 5 =
     Inr (True,
          \<lparr>buffer = [3, 5, 1, 2], size_fifo = 4, head = 1, tail = 1, count = 4,
           high_watermark = 3, low_watermark = 1, overwrite_enabled = True\<rparr>)"
    by (simp add: Add_UART_Message_def BUFFER_SIZE_def word_less_nat_alt
          Add_UART_Message_loop.simps FIFO_SetOverwrite_def eval_defs)
  moreover have "Add_UART_Message (FIFO_Init [0, 0, 0, 0] 4) [0xAA, 5, 1, 2, 3] 5 =
     Inr (False,
          \<lparr>buffer = [0xAA, 5, 1, 2], size_fifo = 4, head = 0, tail = 0, count = 4,
           high_watermark = 3, low_watermark = 1, overwrite_enabled = False\<rparr>)"
    by (simp add: Add_UART_Message_def BUFFER_SIZE_def word_less_nat_alt
          Add_UART_Message_loop.simps eval_defs)
  ultimately show ?thesis by blast
qed

text \<open>
  A message of at most \<^verbatim>\<open>BUFFER_SIZE\<close> bytes with the start byte, its length
  and a zero checksum, added to an empty ring that can hold it, is extracted again
  unchanged.
\<close>

lemma uart_round_trip:
  assumes "ring_ok f" and "count f = 0" and "unat len \<le> unat (size_fifo f)"
    and "length m = unat len" and "3 \<le> len"
    and "m ! 0 = MESSAGE_START_BYTE" and "m ! 1 = len" and "xor_list (drop 2 m) = 0"
    and "unat len \<le> 128" and "unat len \<le> length out"
  shows "\<exists>f1 f2. Add_UART_Message f m len = Inr (True, f1) \<and>
                  Get_UART_Message f1 out olen = Inr (True, f2, m @ drop (unat len) out, len) \<and>
                  count f2 = 0"
proof -
  have u: "3 \<le> unat len" using assms(5) by (simp add: word_le_nat_alt)
  have e: "contents f = []" using assms(2) by (simp add: contents_Nil_iff)
  have chk: "\<not> BUFFER_SIZE - count f < ucast len"
    using buffer_size_check [of f len] assms(2,9) by simp
  from add_message_fits [OF assms(1,5) _ _ chk, of m] assms(3,4) e
  obtain f1 where f1: "Add_UART_Message f m len = Inr (True, f1)" "ring_ok f1"
    "contents f1 = m"
    by auto
  obtain a b payload where m: "m = a # b # payload"
    using u assms(4) by (cases m; cases "tl m") auto
  with assms(6,7) have m': "m = MESSAGE_START_BYTE # len # payload" by simp
  have pl: "length payload = unat len - 2" using assms(4) m by simp
  have x: "xor_list payload = 0" using assms(8) m by simp
  have room: "2 + length (take (unat len - 2) payload) \<le> length out"
    using assms(10) pl u by simp
  from get_message_framed [OF f1(2) _ assms(5) room, of olen] f1(3) m'
  obtain f2 where "Get_UART_Message f1 out olen =
      Inr (unat len - 2 \<le> length payload \<and> xor_list (take (unat len - 2) payload) = 0, f2,
           MESSAGE_START_BYTE # len # take (unat len - 2) payload @
             drop (2 + length (take (unat len - 2) payload)) out, len)"
    "contents f2 = drop (unat len - 2) payload"
    by auto
  moreover have "2 + length payload = unat len" using pl u by simp
  ultimately have "Get_UART_Message f1 out olen = Inr (True, f2, m @ drop (unat len) out, len)"
    and "contents f2 = []"
    using pl x by (simp_all add: m')
  with f1(1) show ?thesis by (auto simp: contents_Nil_iff)
qed

lemma xor_list_replicate_0: "xor_list (replicate n 0) = 0"
  by (induction n) simp_all

text \<open>
  Claim C2 says that a well-formed message of \<open>len\<close> bytes, added to an empty ring
  of capacity at least \<open>len\<close>, is extracted again unchanged. On an empty ring of
  capacity 200 the code refuses a well-formed message of 130 bytes, because 130
  exceeds \<^verbatim>\<open>BUFFER_SIZE\<close>; nothing is added, and the extraction that follows
  fails on the empty ring.
\<close>

theorem round_trip_rejected_above_BUFFER_SIZE:
  "ring_ok (FIFO_Init (replicate 200 0) 200) \<and>
   count (FIFO_Init (replicate 200 0) 200) = 0 \<and>
   unat (130 :: u8) \<le> unat (size_fifo (FIFO_Init (replicate 200 0) 200)) \<and>
   length (0xAA # 130 # replicate 128 (0 :: u8)) = unat (130 :: u8) \<and>
   (0xAA # 130 # replicate 128 (0 :: u8)) ! 0 = MESSAGE_START_BYTE \<and>
   (0xAA # 130 # replicate 128 (0 :: u8)) ! 1 = 130 \<and>
   xor_list (drop 2 (0xAA # 130 # replicate 128 (0 :: u8))) = 0 \<and>
   Add_UART_Message (FIFO_Init (replicate 200 0) 200) (0xAA # 130 # replicate 128 0) 130 =
     Inr (False, FIFO_Init (replicate 200 0) 200) \<and>
   Get_UART_Message (FIFO_Init (replicate 200 0) 200) (replicate 130 0) 0 =
     Inr (False, FIFO_Init (replicate 200 0) 200, replicate 130 0, 0)"
proof -
  have "ring_ok (FIFO_Init (replicate 200 0) 200)"
    by (simp add: ring_ok_def fifo_inv_def storage_ok_def FIFO_Init_def)
  moreover have "Add_UART_Message (FIFO_Init (replicate 200 0) 200)
      (0xAA # 130 # replicate 128 0) 130 = Inr (False, FIFO_Init (replicate 200 0) 200)"
    by (simp add: Add_UART_Message_def BUFFER_SIZE_def FIFO_Init_def word_less_nat_alt)
  moreover have "Get_UART_Message (FIFO_Init (replicate 200 0) 200) (replicate 130 0) 0 =
     Inr (False, FIFO_Init (replicate 200 0) 200, replicate 130 0, 0)"
    by (simp add: Get_UART_Message_def FIFO_IsEmpty_def FIFO_Init_def)
  moreover have "xor_list (drop 2 (0xAA # 130 # replicate 128 (0 :: u8))) = 0"
    by (simp add: xor_list_replicate_0)
  ultimately show ?thesis
    by (simp add: FIFO_Init_def MESSAGE_START_BYTE_def)
qed

end
